theory Spec2Isabelle
  imports Complex_Main "HOL-Library.AList"
begin

section \<open>Python values, errors and the random source\<close>

text \<open>
  The program \<^verbatim>\<open>route.py\<close> consists of four functions over \<^verbatim>\<open>networkx.Graph\<close> objects
  and the module \<^verbatim>\<open>random\<close>. Its own functions are embedded line by line; the library calls
  they make are embedded by their behaviour in the library (quoted at each definition).

  Exceptions are values: a function that can raise returns \<open>error + 'a\<close>. The spec's
  \<^verbatim>\<open>InvalidArgument\<close> is Python's \<^verbatim>\<open>ValueError\<close>, its \<^verbatim>\<open>NotFound\<close> is \<^verbatim>\<open>KeyError\<close>.
\<close>

datatype error = ValueError | KeyError | IndexError

text \<open>
  The global generator of \<^verbatim>\<open>random\<close> is an infinite stream of raw draws; each call of
  \<^verbatim>\<open>_randbelow(n)\<close> consumes one draw and reduces it into \<^verbatim>\<open>range(n)\<close>. Every theorem
  below holds for every stream, that is for every outcome of the sampling.
\<close>

type_synonym rnd = "nat \<Rightarrow> nat"

definition randbelow :: "nat \<Rightarrow> rnd \<Rightarrow> nat \<times> rnd" where
  "randbelow n r = (r 0 mod n, (\<lambda>i. r (Suc i)))"

text \<open>
  \<^verbatim>\<open>int(x)\<close> on a float truncates towards zero. The float \<^verbatim>\<open>hide_ratio\<close> and its
  product with a count are taken as exact reals (the rounding of IEEE doubles is not
  modelled).
\<close>

definition py_int :: "real \<Rightarrow> int" where
  "py_int x = (if 0 \<le> x then \<lfloor>x\<rfloor> else \<lceil>x\<rceil>)"

text \<open>
  \<^verbatim>\<open>random.sample(population, k)\<close>:
  \<^verbatim>\<open>
    n = len(population)
    if not 0 <= k <= n:
        raise ValueError("Sample larger than population or is negative")
    result = [None] * k
    ...
        pool = list(population)
        for i in range(k):
            j = randbelow(n - i)
            result[i] = pool[j]
            pool[j] = pool[n - i - 1]
    return result
  \<close>
  \<open>sample_loop c pool l\<close> runs the last \<open>c\<close> rounds of the loop, with \<open>l = n - i\<close>. (For a
  large population and a small \<open>k\<close> the library draws positions by rejection instead; the
  outcome is again \<open>k\<close> elements at distinct positions.)
\<close>

fun sample_loop :: "nat \<Rightarrow> 'b list \<Rightarrow> nat \<Rightarrow> rnd \<Rightarrow> 'b list \<times> rnd" where
  "sample_loop 0 pool l r = ([], r)"
| "sample_loop (Suc c) pool l r =
     (let (j, r') = randbelow l r;
          x = pool ! j;
          pool' = pool[j := pool ! (l - 1)];
          (xs, r'') = sample_loop c pool' (l - 1) r'
      in (x # xs, r''))"

definition sample :: "'b list \<Rightarrow> int \<Rightarrow> rnd \<Rightarrow> error + ('b list \<times> rnd)" where
  "sample population k r =
     (let n = length population in
      if \<not> (0 \<le> k \<and> k \<le> int n) then Inl ValueError
      else Inr (sample_loop (nat k) population n r))"

section \<open>The graph library\<close>

text \<open>
  A \<^verbatim>\<open>networkx.Graph\<close>: nodes with an attribute dictionary each, in insertion order, and
  undirected edges with an attribute dictionary each. An edge is stored once, under one
  orientation, and is found under both (\<^verbatim>\<open>G.edges[u, v]\<close> and \<^verbatim>\<open>G.edges[v, u]\<close> are the
  same dictionary). Only boolean attributes occur in the program.

  \<^verbatim>\<open>list(G.edges)\<close> reports every edge once; the order of the report and the orientation
  of each pair are those of the stored list here. The library may report another order or
  orientation. Nothing below depends on either: the operations find an edge under both
  orientations, and the theorems hold for every random source, hence for every sample.
\<close>

type_synonym attrs = "(string \<times> bool) list"

record 'a graph =
  node_d :: "('a \<times> attrs) list"
  edge_d :: "(('a \<times> 'a) \<times> attrs) list"

definition same_edge :: "'a \<times> 'a \<Rightarrow> 'a \<times> 'a \<Rightarrow> bool" where
  "same_edge e f = (e = f \<or> e = (snd f, fst f))"

definition empty_graph :: "'a graph" where
  "empty_graph = \<lparr>node_d = [], edge_d = []\<rparr>"

definition nodes_list :: "'a graph \<Rightarrow> 'a list" where
  \<comment> \<open>\<^verbatim>\<open>list(G.nodes)\<close>\<close>
  "nodes_list g = map fst (node_d g)"

definition edges_list :: "'a graph \<Rightarrow> ('a \<times> 'a) list" where
  \<comment> \<open>\<^verbatim>\<open>list(G.edges)\<close>: every edge once, as a pair\<close>
  "edges_list g = map fst (edge_d g)"

definition number_of_nodes :: "'a graph \<Rightarrow> nat" where
  "number_of_nodes g = length (node_d g)"

definition number_of_edges :: "'a graph \<Rightarrow> nat" where
  "number_of_edges g = length (edge_d g)"

definition has_node :: "'a graph \<Rightarrow> 'a \<Rightarrow> bool" where
  "has_node g n = (n \<in> set (nodes_list g))"

definition has_edge :: "'a graph \<Rightarrow> 'a \<times> 'a \<Rightarrow> bool" where
  "has_edge g e = (\<exists>f \<in> set (edges_list g). same_edge e f)"

text \<open>
  \<^verbatim>\<open>add_nodes_from\<close> adds a node with an empty dictionary unless it is there;
  \<^verbatim>\<open>add_edges_from\<close> adds the two endpoints when they are missing, then the edge with an
  empty dictionary unless it is there (an existing edge keeps its dictionary).
\<close>

definition add_node :: "'a graph \<Rightarrow> 'a \<Rightarrow> 'a graph" where
  "add_node g n = (if has_node g n then g else g\<lparr>node_d := node_d g @ [(n, [])]\<rparr>)"

definition add_edge :: "'a graph \<Rightarrow> 'a \<times> 'a \<Rightarrow> 'a graph" where
  "add_edge g e =
     (let g' = add_node (add_node g (fst e)) (snd e) in
      if has_edge g' e then g' else g'\<lparr>edge_d := edge_d g' @ [(e, [])]\<rparr>)"

definition add_nodes_from :: "'a graph \<Rightarrow> 'a list \<Rightarrow> 'a graph" where
  "add_nodes_from g ns = fold (\<lambda>n g. add_node g n) ns g"

definition add_edges_from :: "'a graph \<Rightarrow> ('a \<times> 'a) list \<Rightarrow> 'a graph" where
  "add_edges_from g es = fold (\<lambda>e g. add_edge g e) es g"

text \<open>
  \<^verbatim>\<open>remove_nodes_from\<close>: for each listed node that is in the graph, the node and every edge
  at it are deleted; a node that is not in the graph is skipped (the \<^verbatim>\<open>KeyError\<close> is caught).
  \<^verbatim>\<open>remove_edges_from\<close>: for each listed pair, the edge is deleted if it is in the graph,
  and nothing happens otherwise.
\<close>

definition remove_node :: "'a graph \<Rightarrow> 'a \<Rightarrow> 'a graph" where
  "remove_node g n =
     (if has_node g n
      then \<lparr>node_d = filter (\<lambda>(k, d). k \<noteq> n) (node_d g),
            edge_d = filter (\<lambda>(f, d). fst f \<noteq> n \<and> snd f \<noteq> n) (edge_d g)\<rparr>
      else g)"

definition remove_edge :: "'a graph \<Rightarrow> 'a \<times> 'a \<Rightarrow> 'a graph" where
  "remove_edge g e =
     (if has_edge g e
      then g\<lparr>edge_d := filter (\<lambda>(f, d). \<not> same_edge e f) (edge_d g)\<rparr>
      else g)"

definition remove_nodes_from :: "'a graph \<Rightarrow> 'a list \<Rightarrow> 'a graph" where
  "remove_nodes_from g ns = fold (\<lambda>n g. remove_node g n) ns g"

definition remove_edges_from :: "'a graph \<Rightarrow> ('a \<times> 'a) list \<Rightarrow> 'a graph" where
  "remove_edges_from g es = fold (\<lambda>e g. remove_edge g e) es g"

text \<open>
  \<^verbatim>\<open>G.nodes[n][key] = value\<close> and \<^verbatim>\<open>G.edges[e][key] = value\<close>: the lookup of the node or
  of the edge raises \<^verbatim>\<open>KeyError\<close> when it is not in the graph; otherwise its dictionary
  is updated.
\<close>

definition node_setitem :: "'a graph \<Rightarrow> 'a \<Rightarrow> string \<Rightarrow> bool \<Rightarrow> error + 'a graph" where
  "node_setitem g n k v =
     (if has_node g n
      then Inr (g\<lparr>node_d := map (\<lambda>(m, d). if m = n then (m, AList.update k v d) else (m, d))
                               (node_d g)\<rparr>)
      else Inl KeyError)"

definition edge_setitem :: "'a graph \<Rightarrow> 'a \<times> 'a \<Rightarrow> string \<Rightarrow> bool \<Rightarrow> error + 'a graph" where
  "edge_setitem g e k v =
     (if has_edge g e
      then Inr (g\<lparr>edge_d := map (\<lambda>(f, d). if same_edge e f then (f, AList.update k v d)
                                        else (f, d)) (edge_d g)\<rparr>)
      else Inl KeyError)"

definition node_attr :: "'a graph \<Rightarrow> 'a \<Rightarrow> string \<Rightarrow> bool option" where
  "node_attr g n k = (case map_of (node_d g) n of None \<Rightarrow> None | Some d \<Rightarrow> map_of d k)"

definition edge_attr :: "'a graph \<Rightarrow> 'a \<times> 'a \<Rightarrow> string \<Rightarrow> bool option" where
  "edge_attr g e k =
     (case find (\<lambda>(f, d). same_edge e f) (edge_d g) of
        None \<Rightarrow> None
      | Some (f, d) \<Rightarrow> map_of d k)"

text \<open>
  \<^verbatim>\<open>complete_graph(n, create_using=G)\<close> clears \<open>G\<close>, adds the nodes \<^verbatim>\<open>range(n)\<close> and, when
  there are at least two, the edges \<^verbatim>\<open>itertools.combinations(range(n), 2)\<close>.
\<close>

fun combinations2 :: "'b list \<Rightarrow> ('b \<times> 'b) list" where
  "combinations2 [] = []"
| "combinations2 (x # xs) = map (Pair x) xs @ combinations2 xs"

definition complete_graph :: "nat \<Rightarrow> nat graph" where
  "complete_graph n =
     (let g = add_nodes_from empty_graph [0..<n] in
      if n > 1 then add_edges_from g (combinations2 [0..<n]) else g)"

text \<open>
  \<^verbatim>\<open>random.choice(seq)\<close> raises \<^verbatim>\<open>IndexError\<close> on an empty sequence and returns
  \<^verbatim>\<open>seq[_randbelow(len(seq))]\<close> otherwise.
\<close>

definition choice :: "'b list \<Rightarrow> rnd \<Rightarrow> error + ('b \<times> rnd)" where
  "choice seq r =
     (if seq = [] then Inl IndexError
      else (let (j, r') = randbelow (length seq) r in Inr (seq ! j, r')))"

text \<open>
  \<^verbatim>\<open>networkx.gnm_random_graph(n, m)\<close>:
  \<^verbatim>\<open>
    G = nx.Graph()
    G.add_nodes_from(range(n))
    if n == 1:
        return G
    max_edges = n * (n - 1)
    if not directed:
        max_edges /= 2.0
    if m >= max_edges:
        return complete_graph(n, create_using=G)
    nlist = list(G)
    edge_count = 0
    while edge_count < m:
        u = seed.choice(nlist)
        v = seed.choice(nlist)
        if u == v or G.has_edge(u, v):
            continue
        else:
            G.add_edge(u, v)
            edge_count = edge_count + 1
    return G
  \<close>
  The loop ends only when the generator delivers enough fresh pairs, so it is a partial
  function: \<open>None\<close> is a run that never returns.
\<close>

partial_function (option) gnm_loop ::
  "nat list \<Rightarrow> nat \<Rightarrow> nat graph \<Rightarrow> nat \<Rightarrow> rnd \<Rightarrow> (error + (nat graph \<times> rnd)) option" where
  "gnm_loop nlist m g edge_count r =
     (if edge_count < m then
        (case choice nlist r of
           Inl e \<Rightarrow> Some (Inl e)
         | Inr (u, r1) \<Rightarrow>
             (case choice nlist r1 of
                Inl e \<Rightarrow> Some (Inl e)
              | Inr (v, r2) \<Rightarrow>
                  if u = v \<or> has_edge g (u, v) then gnm_loop nlist m g edge_count r2
                  else gnm_loop nlist m (add_edge g (u, v)) (edge_count + 1) r2))
      else Some (Inr (g, r)))"

definition gnm_random_graph :: "nat \<Rightarrow> nat \<Rightarrow> rnd \<Rightarrow> (error + (nat graph \<times> rnd)) option" where
  "gnm_random_graph n m r =
     (let g = add_nodes_from empty_graph [0..<n] in
      if n = 1 then Some (Inr (g, r))
      else if n * (n - 1) \<le> 2 * m then Some (Inr (complete_graph n, r))
      else gnm_loop (nodes_list g) m g 0 r)"

section \<open>The program state\<close>

text \<open>
  Graphs are objects: a variable of the program holds a reference into a heap of graphs,
  and a method call changes the graph at the reference. The state is the heap and the
  global random generator.
\<close>

type_synonym ref = nat

record 'a state =
  heap :: "'a graph list"
  rand :: rnd

definition new_graph :: "'a graph \<Rightarrow> 'a state \<Rightarrow> ref \<times> 'a state" where
  "new_graph g s = (length (heap s), s\<lparr>heap := heap s @ [g]\<rparr>)"

definition copy :: "ref \<Rightarrow> 'a state \<Rightarrow> ref \<times> 'a state" where
  \<comment> \<open>\<^verbatim>\<open>G.copy()\<close>: a new graph object with the same nodes, edges and attribute values\<close>
  "copy G s = new_graph (heap s ! G) s"

definition call :: "ref \<Rightarrow> ('a graph \<Rightarrow> 'a graph) \<Rightarrow> 'a state \<Rightarrow> 'a state" where
  \<comment> \<open>a mutating method of the object at \<open>G\<close>\<close>
  "call G f s = s\<lparr>heap := (heap s)[G := f (heap s ! G)]\<rparr>"

definition random_sample :: "'b list \<Rightarrow> int \<Rightarrow> 'a state \<Rightarrow> error + ('b list \<times> 'a state)" where
  "random_sample population k s =
     (case sample population k (rand s) of
        Inl e \<Rightarrow> Inl e
      | Inr (xs, r) \<Rightarrow> Inr (xs, s\<lparr>rand := r\<rparr>))"

section \<open>The program\<close>

definition create_random_topology ::
  "nat \<Rightarrow> nat \<Rightarrow> nat state \<Rightarrow> (error + (ref \<times> nat state)) option" where
  "create_random_topology num_nodes num_edges s =
     (case gnm_random_graph num_nodes num_edges (rand s) of
        None \<Rightarrow> None
      | Some (Inl e) \<Rightarrow> Some (Inl e)
      | Some (Inr (g, r)) \<Rightarrow> Some (Inr (new_graph g (s\<lparr>rand := r\<rparr>))))"

definition apply_anonymous_routing ::
  "ref \<Rightarrow> real \<Rightarrow> 'a state \<Rightarrow> error + ((ref \<times> 'a list \<times> ('a \<times> 'a) list) \<times> 'a state)" where
  "apply_anonymous_routing G hide_ratio s0 =
     (let (G_anonymous, s1) = copy G s0 in
      case random_sample (nodes_list (heap s1 ! G))
             (py_int (hide_ratio * real (number_of_nodes (heap s1 ! G)))) s1 of
        Inl e \<Rightarrow> Inl e
      | Inr (nodes_to_hide, s2) \<Rightarrow>
          let hidden_nodes = nodes_to_hide;
              s3 = call G_anonymous (\<lambda>g. remove_nodes_from g nodes_to_hide) s2
          in case random_sample (edges_list (heap s3 ! G))
                    (py_int (hide_ratio * real (number_of_edges (heap s3 ! G)))) s3 of
               Inl e \<Rightarrow> Inl e
             | Inr (edges_to_hide, s4) \<Rightarrow>
                 let hidden_edges = edges_to_hide;
                     s5 = call G_anonymous (\<lambda>g. remove_edges_from g edges_to_hide) s4
                 in Inr ((G_anonymous, hidden_nodes, hidden_edges), s5))"

fun mark_nodes :: "ref \<Rightarrow> 'a list \<Rightarrow> 'a state \<Rightarrow> error + 'a state" where
  "mark_nodes G [] s = Inr s"
| "mark_nodes G (node # rest) s =
     (case node_setitem (heap s ! G) node ''hidden'' True of
        Inl e \<Rightarrow> Inl e
      | Inr g \<Rightarrow> mark_nodes G rest (s\<lparr>heap := (heap s)[G := g]\<rparr>))"

fun mark_edges :: "ref \<Rightarrow> ('a \<times> 'a) list \<Rightarrow> 'a state \<Rightarrow> error + 'a state" where
  "mark_edges G [] s = Inr s"
| "mark_edges G (edge # rest) s =
     (case edge_setitem (heap s ! G) edge ''hidden'' True of
        Inl e \<Rightarrow> Inl e
      | Inr g \<Rightarrow> mark_edges G rest (s\<lparr>heap := (heap s)[G := g]\<rparr>))"

definition mark_anonymous_routes ::
  "ref \<Rightarrow> 'a list \<Rightarrow> ('a \<times> 'a) list \<Rightarrow> 'a state \<Rightarrow> error + (ref \<times> 'a state)" where
  "mark_anonymous_routes G hidden_nodes hidden_edges s0 =
     (let (G_marked, s1) = copy G s0 in
      case mark_nodes G_marked hidden_nodes s1 of
        Inl e \<Rightarrow> Inl e
      | Inr s2 \<Rightarrow>
          (case mark_edges G_marked hidden_edges s2 of
             Inl e \<Rightarrow> Inl e
           | Inr s3 \<Rightarrow> Inr (G_marked, s3)))"

definition restore_topology ::
  "ref \<Rightarrow> 'a list \<Rightarrow> ('a \<times> 'a) list \<Rightarrow> 'a state \<Rightarrow> ref \<times> 'a state" where
  "restore_topology G_anonymous hidden_nodes hidden_edges s0 =
     (let (G_restored, s1) = copy G_anonymous s0;
          s2 = call G_restored (\<lambda>g. add_nodes_from g hidden_nodes) s1;
          s3 = call G_restored (\<lambda>g. add_edges_from g hidden_edges) s2
      in (G_restored, s3))"

section \<open>Node sets, edge sets and well-formed graphs\<close>

text \<open>
  The node set and the edge set of a graph; an undirected edge is the set of its
  endpoints. A graph object of the library has no node twice, no edge twice (under
  either orientation), and edges between its own nodes only.
\<close>

definition uedge :: "'a \<times> 'a \<Rightarrow> 'a set" where
  "uedge e = {fst e, snd e}"

definition nodes_of :: "'a graph \<Rightarrow> 'a set" where
  "nodes_of g = set (nodes_list g)"

definition edges_of :: "'a graph \<Rightarrow> 'a set set" where
  "edges_of g = uedge ` set (edges_list g)"

definition wf_graph :: "'a graph \<Rightarrow> bool" where
  "wf_graph g =
     (distinct (nodes_list g) \<and>
      distinct (map uedge (edges_list g)) \<and>
      (\<forall>e \<in> set (edges_list g). fst e \<in> nodes_of g \<and> snd e \<in> nodes_of g))"

section \<open>Fair random sources\<close>

text \<open>
  The loop of \<^verbatim>\<open>gnm_random_graph\<close> draws pairs of nodes until it has found enough fresh
  ones. A random source is fair for \<open>n\<close> nodes when every ordered pair of nodes comes up
  again and again as the two draws of one round; a source that is not fair can keep the
  loop running forever. \<open>round_robin n\<close> is a fair source: it goes through the pairs in
  order.
\<close>

definition fair :: "nat \<Rightarrow> rnd \<Rightarrow> bool" where
  "fair n r = (\<forall>u < n. \<forall>v < n. \<forall>p. \<exists>q \<ge> p. r (2 * q) mod n = u \<and> r (2 * q + 1) mod n = v)"

definition round_robin :: "nat \<Rightarrow> rnd" where
  "round_robin n i = (if even i then (i div 2) div n mod n else (i div 2) mod n)"

text \<open>
  The graphs the loop works on: the nodes are \<open>0, ..., n - 1\<close>, no edge is stored twice
  and no edge is a self-loop.
\<close>

definition simple_on :: "nat \<Rightarrow> nat graph \<Rightarrow> bool" where
  "simple_on n g =
     (wf_graph g \<and> nodes_list g = [0..<n] \<and> (\<forall>e \<in> set (edges_list g). fst e \<noteq> snd e))"

section \<open>Example inputs\<close>

text \<open>The path \<open>0 - 1 - 2\<close>, without attributes.\<close>

definition path3 :: "nat graph" where
  "path3 = \<lparr>node_d = [(0, []), (1, []), (2, [])], edge_d = [((0, 1), []), ((1, 2), [])]\<rparr>"

text \<open>A single edge \<open>0 - 1\<close>.\<close>

definition edge2 :: "nat graph" where
  "edge2 = \<lparr>node_d = [(0, []), (1, [])], edge_d = [((0, 1), [])]\<rparr>"

text \<open>A single node that already carries \<^verbatim>\<open>hidden = True\<close>.\<close>

definition marked1 :: "nat graph" where
  "marked1 = \<lparr>node_d = [(0, [(''hidden'', True)])], edge_d = []\<rparr>"

section \<open>The library operations on node and edge sets\<close>

lemma same_edge_uedge: "same_edge e f \<longleftrightarrow> uedge e = uedge f"
  by (cases e; cases f) (auto simp: same_edge_def uedge_def doubleton_eq_iff)

lemma has_edge_iff: "has_edge g e \<longleftrightarrow> uedge e \<in> edges_of g"
  by (auto simp: has_edge_def edges_of_def same_edge_uedge)

lemma has_node_iff: "has_node g n \<longleftrightarrow> n \<in> nodes_of g"
  by (simp add: has_node_def nodes_of_def)

lemma nodes_list_add_node:
  "nodes_list (add_node g n) = (if n \<in> set (nodes_list g) then nodes_list g else nodes_list g @ [n])"
  by (simp add: add_node_def has_node_def nodes_list_def)

lemma edge_d_add_node: "edge_d (add_node g n) = edge_d g"
  by (simp add: add_node_def)

lemma edges_list_add_node: "edges_list (add_node g n) = edges_list g"
  by (simp add: add_node_def edges_list_def)

lemma nodes_list_add_edge:
  "nodes_list (add_edge g e) = nodes_list (add_node (add_node g (fst e)) (snd e))"
  by (simp add: add_edge_def Let_def nodes_list_def)

lemma edges_list_add_edge:
  "edges_list (add_edge g e) =
     (if uedge e \<in> uedge ` set (edges_list g) then edges_list g else edges_list g @ [e])"
  by (simp add: add_edge_def Let_def has_edge_iff edges_of_def edges_list_def edge_d_add_node)

lemma nodes_list_remove_node:
  "nodes_list (remove_node g n) = filter (\<lambda>k. k \<noteq> n) (nodes_list g)"
proof (cases "has_node g n")
  case True
  then show ?thesis
    by (simp add: remove_node_def nodes_list_def filter_map comp_def case_prod_unfold)
next
  case False
  then have "filter (\<lambda>k. k \<noteq> n) (nodes_list g) = nodes_list g"
    by (auto simp: has_node_def filter_id_conv)
  with False show ?thesis by (simp add: remove_node_def)
qed

lemma edges_list_remove_node:
  "edges_list (remove_node g n) =
     (if n \<in> set (nodes_list g)
      then filter (\<lambda>f. fst f \<noteq> n \<and> snd f \<noteq> n) (edges_list g) else edges_list g)"
  by (simp add: remove_node_def has_node_def edges_list_def filter_map comp_def case_prod_unfold)

lemma nodes_list_remove_edge: "nodes_list (remove_edge g e) = nodes_list g"
  by (simp add: remove_edge_def nodes_list_def)

lemma edges_list_remove_edge:
  "edges_list (remove_edge g e) = filter (\<lambda>f. uedge f \<noteq> uedge e) (edges_list g)"
proof (cases "has_edge g e")
  case True
  then show ?thesis
    by (simp add: remove_edge_def edges_list_def filter_map comp_def case_prod_unfold
        same_edge_uedge eq_commute [of "uedge e"])
next
  case False
  then have "filter (\<lambda>f. uedge f \<noteq> uedge e) (edges_list g) = edges_list g"
    by (auto simp: has_edge_iff edges_of_def filter_id_conv)
  with False show ?thesis by (simp add: remove_edge_def)
qed

lemmas graph_list_simps =
  nodes_list_add_node edges_list_add_node nodes_list_add_edge edges_list_add_edge
  nodes_list_remove_node edges_list_remove_node nodes_list_remove_edge edges_list_remove_edge

lemma nodes_of_add_node: "nodes_of (add_node g n) = insert n (nodes_of g)"
  by (auto simp: nodes_of_def graph_list_simps)

lemma edges_of_add_node: "edges_of (add_node g n) = edges_of g"
  by (simp add: edges_of_def graph_list_simps)

lemma wf_add_node: "wf_graph g \<Longrightarrow> wf_graph (add_node g n)"
  by (auto simp: wf_graph_def nodes_of_def graph_list_simps)

lemma nodes_of_add_edge: "nodes_of (add_edge g e) = insert (fst e) (insert (snd e) (nodes_of g))"
  by (auto simp: nodes_of_def graph_list_simps)

lemma edges_of_add_edge: "edges_of (add_edge g e) = insert (uedge e) (edges_of g)"
  by (auto simp: edges_of_def graph_list_simps)

lemma wf_add_edge: "wf_graph g \<Longrightarrow> wf_graph (add_edge g e)"
  by (auto simp: wf_graph_def nodes_of_def graph_list_simps)

lemma nodes_of_remove_node: "nodes_of (remove_node g n) = nodes_of g - {n}"
  by (auto simp: nodes_of_def graph_list_simps)

lemma edges_of_remove_node:
  "wf_graph g \<Longrightarrow> edges_of (remove_node g n) = {x \<in> edges_of g. n \<notin> x}"
  by (auto simp: edges_of_def graph_list_simps wf_graph_def nodes_of_def uedge_def)

lemma wf_remove_node: "wf_graph g \<Longrightarrow> wf_graph (remove_node g n)"
  by (auto simp: wf_graph_def nodes_of_def graph_list_simps distinct_map_filter)

lemma nodes_of_remove_edge: "nodes_of (remove_edge g e) = nodes_of g"
  by (simp add: nodes_of_def graph_list_simps)

lemma edges_of_remove_edge: "edges_of (remove_edge g e) = edges_of g - {uedge e}"
  by (auto simp: edges_of_def graph_list_simps)

lemma wf_remove_edge: "wf_graph g \<Longrightarrow> wf_graph (remove_edge g e)"
  by (auto simp: wf_graph_def nodes_of_def graph_list_simps distinct_map_filter)

section \<open>Sampling and the bulk operations\<close>

lemma nodes_of_add_nodes_from: "nodes_of (add_nodes_from g ns) = nodes_of g \<union> set ns"
  unfolding add_nodes_from_def
  by (induction ns arbitrary: g) (auto simp: nodes_of_add_node)

lemma edges_of_add_nodes_from: "edges_of (add_nodes_from g ns) = edges_of g"
  unfolding add_nodes_from_def
  by (induction ns arbitrary: g) (auto simp: edges_of_add_node)

lemma wf_add_nodes_from: "wf_graph g \<Longrightarrow> wf_graph (add_nodes_from g ns)"
  unfolding add_nodes_from_def
  by (induction ns arbitrary: g) (auto simp: wf_add_node)

lemma nodes_of_add_edges_from:
  "nodes_of (add_edges_from g es) = nodes_of g \<union> fst ` set es \<union> snd ` set es"
  unfolding add_edges_from_def
  by (induction es arbitrary: g) (auto simp: nodes_of_add_edge)

lemma edges_of_add_edges_from: "edges_of (add_edges_from g es) = edges_of g \<union> uedge ` set es"
  unfolding add_edges_from_def
  by (induction es arbitrary: g) (auto simp: edges_of_add_edge)

lemma wf_add_edges_from: "wf_graph g \<Longrightarrow> wf_graph (add_edges_from g es)"
  unfolding add_edges_from_def
  by (induction es arbitrary: g) (auto simp: wf_add_edge)

lemma nodes_of_remove_nodes_from: "nodes_of (remove_nodes_from g ns) = nodes_of g - set ns"
  unfolding remove_nodes_from_def
  by (induction ns arbitrary: g) (auto simp: nodes_of_remove_node)

lemma wf_remove_nodes_from: "wf_graph g \<Longrightarrow> wf_graph (remove_nodes_from g ns)"
  unfolding remove_nodes_from_def
  by (induction ns arbitrary: g) (auto simp: wf_remove_node)

lemma edges_of_remove_nodes_from:
  "wf_graph g \<Longrightarrow> edges_of (remove_nodes_from g ns) = {x \<in> edges_of g. x \<inter> set ns = {}}"
  unfolding remove_nodes_from_def
  by (induction ns arbitrary: g) (auto simp: edges_of_remove_node wf_remove_node)

lemma nodes_of_remove_edges_from: "nodes_of (remove_edges_from g es) = nodes_of g"
  unfolding remove_edges_from_def
  by (induction es arbitrary: g) (auto simp: nodes_of_remove_edge)

lemma edges_of_remove_edges_from:
  "edges_of (remove_edges_from g es) = edges_of g - uedge ` set es"
  unfolding remove_edges_from_def
  by (induction es arbitrary: g) (auto simp: edges_of_remove_edge)

lemma wf_remove_edges_from: "wf_graph g \<Longrightarrow> wf_graph (remove_edges_from g es)"
  unfolding remove_edges_from_def
  by (induction es arbitrary: g) (auto simp: wf_remove_edge)

lemma sample_loop_props:
  "sample_loop c pool l r = (xs, r') \<Longrightarrow> c \<le> l \<Longrightarrow> l \<le> length pool \<Longrightarrow>
     length xs = c \<and> set xs \<subseteq> set (take l pool) \<and> (distinct (take l pool) \<longrightarrow> distinct xs)"
proof (induction c arbitrary: pool l r xs r')
  case 0
  then show ?case by simp
next
  case (Suc c)
  define j where "j = r 0 mod l"
  define pool' where "pool' = pool[j := pool ! (l - 1)]"
  obtain ys r2 where rec: "sample_loop c pool' (l - 1) (\<lambda>i. r (Suc i)) = (ys, r2)"
    by (cases "sample_loop c pool' (l - 1) (\<lambda>i. r (Suc i))") auto
  from Suc.prems(1) rec have xs: "xs = pool ! j # ys"
    by (simp add: randbelow_def j_def pool'_def Let_def)
  from Suc.prems have l: "0 < l" "j < l" "l - 1 \<le> length pool'" "c \<le> l - 1"
    by (auto simp: j_def pool'_def)
  have tk: "take l pool = take (l - 1) pool @ [pool ! (l - 1)]"
    using l Suc.prems(3) by (metis Suc_pred' less_le_trans not_less take_Suc_conv_app_nth linorder_not_le Suc_le_eq)
  have tk': "take (l - 1) pool' = (take (l - 1) pool)[j := pool ! (l - 1)]"
    by (simp add: pool'_def take_update_swap)
  from Suc.IH [OF rec l(4) l(3)]
  have ih: "length ys = c" "set ys \<subseteq> set (take (l - 1) pool')"
    "distinct (take (l - 1) pool') \<Longrightarrow> distinct ys" by auto
  have in1: "pool ! j \<in> set (take l pool)"
    using l Suc.prems(3) by (metis in_set_conv_nth length_take min.absorb2 nth_take)
  have sub: "set (take (l - 1) pool') \<subseteq> set (take l pool)"
    unfolding tk' tk using set_update_subset_insert [of "take (l - 1) pool" j "pool ! (l - 1)"]
    by auto
  have d: "distinct ys \<and> pool ! j \<notin> set ys" if dist: "distinct (take l pool)"
  proof (cases "j = l - 1")
    case True
    then have "take (l - 1) pool' = take (l - 1) pool" by (simp add: pool'_def)
    moreover have "pool ! (l - 1) \<notin> set (take (l - 1) pool)" "distinct (take (l - 1) pool)"
      using dist tk by auto
    ultimately show ?thesis using ih True by auto
  next
    case False
    then have jl: "j < l - 1" using l by arith
    then have jlen: "j < length (take (l - 1) pool)" using Suc.prems(3) by simp
    have d1: "distinct (take (l - 1) pool)" and nin: "pool ! (l - 1) \<notin> set (take (l - 1) pool)"
      using dist tk by auto
    have pj: "take (l - 1) pool ! j = pool ! j" using jl by simp
    have s: "set (take (l - 1) pool') = insert (pool ! (l - 1)) (set (take (l - 1) pool) - {pool ! j})"
      unfolding tk' using set_update_distinct [OF d1 jlen] pj by simp
    have d2: "distinct (take (l - 1) pool')"
      unfolding tk' using d1 nin by (simp add: distinct_list_update)
    have "pool ! j \<in> set (take (l - 1) pool)" using jlen pj by (metis nth_mem)
    then have "pool ! j \<noteq> pool ! (l - 1)" using nin by auto
    then have "pool ! j \<notin> set (take (l - 1) pool')" using s by auto
    then show ?thesis using ih d2 by auto
  qed
  show ?case using xs ih in1 sub d by auto
qed

lemma sample_props:
  assumes "sample population k r = Inr (xs, r')"
  shows "0 \<le> k" "k \<le> int (length population)" "length xs = nat k" "set xs \<subseteq> set population"
    "distinct population \<Longrightarrow> distinct xs"
proof -
  from assms have k: "0 \<le> k" "k \<le> int (length population)"
    and sl: "sample_loop (nat k) population (length population) r = (xs, r')"
    by (auto simp: sample_def Let_def split: if_splits)
  from sample_loop_props [OF sl] k
  have "length xs = nat k \<and> set xs \<subseteq> set population \<and> (distinct population \<longrightarrow> distinct xs)"
    by simp
  with k show "0 \<le> k" "k \<le> int (length population)" "length xs = nat k" "set xs \<subseteq> set population"
    "distinct population \<Longrightarrow> distinct xs" by auto
qed

lemma sample_returns:
  "0 \<le> k \<Longrightarrow> k \<le> int (length population) \<Longrightarrow> \<exists>xs r'. sample population k r = Inr (xs, r')"
  by (cases "sample_loop (nat k) population (length population) r") (simp add: sample_def)


section \<open>Concealment and restoration\<close>

lemma py_int_range:
  assumes "0 \<le> r" "r \<le> 1"
  shows "0 \<le> py_int (r * real n)" "py_int (r * real n) \<le> int n"
proof -
  have a: "0 \<le> r * real n" using assms by simp
  have "r * real n \<le> 1 * real n" using assms by (intro mult_right_mono) simp_all
  then have b: "r * real n \<le> real n" by simp
  show "0 \<le> py_int (r * real n)" using a by (simp add: py_int_def)
  have "\<lfloor>r * real n\<rfloor> \<le> \<lfloor>real n\<rfloor>" using b by (rule floor_mono)
  then show "py_int (r * real n) \<le> int n" using a by (simp add: py_int_def)
qed

lemma apply_anonymous_routing_eq:
  assumes "G < length (heap s)"
  shows "apply_anonymous_routing G hide_ratio s =
     (let g = heap s ! G in
      case sample (nodes_list g) (py_int (hide_ratio * real (number_of_nodes g))) (rand s) of
        Inl e \<Rightarrow> Inl e
      | Inr (hn, r1) \<Rightarrow>
          (case sample (edges_list g) (py_int (hide_ratio * real (number_of_edges g))) r1 of
             Inl e \<Rightarrow> Inl e
           | Inr (he, r2) \<Rightarrow>
               Inr ((length (heap s), hn, he),
                    s\<lparr>heap := heap s @ [remove_edges_from (remove_nodes_from g hn) he],
                      rand := r2\<rparr>)))"
  using assms
  by (simp add: apply_anonymous_routing_def copy_def new_graph_def random_sample_def call_def
      Let_def nth_append split: sum.splits prod.splits)

lemma restore_topology_eq:
  assumes "G < length (heap s)"
  shows "restore_topology G hn he s =
     (length (heap s),
      s\<lparr>heap := heap s @ [add_edges_from (add_nodes_from (heap s ! G) hn) he]\<rparr>)"
  using assms
  by (simp add: restore_topology_def copy_def new_graph_def call_def Let_def nth_append)


lemma apply_anonymous_routing_returns:
  assumes G: "G < length (heap s)" and r: "0 \<le> hide_ratio" "hide_ratio \<le> 1"
    and len: "length (edges_list (heap s ! G)) = number_of_edges (heap s ! G)"
  obtains hn he r1 r2 where
    "sample (nodes_list (heap s ! G))
       (py_int (hide_ratio * real (number_of_nodes (heap s ! G)))) (rand s) = Inr (hn, r1)"
    "sample (edges_list (heap s ! G))
       (py_int (hide_ratio * real (number_of_edges (heap s ! G)))) r1 = Inr (he, r2)"
    "apply_anonymous_routing G hide_ratio s =
       Inr ((length (heap s), hn, he),
            s\<lparr>heap := heap s @ [remove_edges_from (remove_nodes_from (heap s ! G) hn) he],
              rand := r2\<rparr>)"
proof -
  let ?g = "heap s ! G"
  have "length (nodes_list ?g) = number_of_nodes ?g"
    by (simp add: nodes_list_def number_of_nodes_def)
  with py_int_range [OF r, of "number_of_nodes ?g"]
    sample_returns [of "py_int (hide_ratio * real (number_of_nodes ?g))" "nodes_list ?g" "rand s"]
  obtain hn r1 where 1: "sample (nodes_list ?g)
       (py_int (hide_ratio * real (number_of_nodes ?g))) (rand s) = Inr (hn, r1)"
    by auto
  from len py_int_range [OF r, of "number_of_edges ?g"]
    sample_returns [of "py_int (hide_ratio * real (number_of_edges ?g))" "edges_list ?g" r1]
  obtain he r2 where 2: "sample (edges_list ?g)
       (py_int (hide_ratio * real (number_of_edges ?g))) r1 = Inr (he, r2)"
    by auto
  show thesis
    by (rule that [OF 1 2]) (simp add: apply_anonymous_routing_eq [OF G] 1 2)
qed

lemma length_edges_list: "length (edges_list g) = number_of_edges g"
  by (simp add: edges_list_def number_of_edges_def)

lemma length_nodes_list: "length (nodes_list g) = number_of_nodes g"
  by (simp add: nodes_list_def number_of_nodes_def)

lemma edge_endpoints_in_nodes:
  "wf_graph g \<Longrightarrow> e \<in> set (edges_list g) \<Longrightarrow> fst e \<in> nodes_of g \<and> snd e \<in> nodes_of g"
  by (simp add: wf_graph_def)

text \<open>
  C10: for a hide ratio in \<open>[0, 1]\<close>, concealing a graph and restoring the result gives a
  graph with exactly the nodes of the original and with edges of the original only.
\<close>

theorem restore_nodes_equal_edges_subset:
  assumes "wf_graph (heap s ! G)" and "G < length (heap s)"
    and "0 \<le> hide_ratio" and "hide_ratio \<le> 1"
  shows "\<exists>G_anon hn he s1 G_restored s2.
           apply_anonymous_routing G hide_ratio s = Inr ((G_anon, hn, he), s1) \<and>
           restore_topology G_anon hn he s1 = (G_restored, s2) \<and>
           nodes_of (heap s2 ! G_restored) = nodes_of (heap s ! G) \<and>
           edges_of (heap s2 ! G_restored) \<subseteq> edges_of (heap s ! G)"
proof -
  define g where "g = heap s ! G"
  have wf: "wf_graph g" using assms(1) by (simp add: g_def)
  obtain hn he r1 r2 where
    sn: "sample (nodes_list g) (py_int (hide_ratio * real (number_of_nodes g))) (rand s)
           = Inr (hn, r1)" and
    se: "sample (edges_list g) (py_int (hide_ratio * real (number_of_edges g))) r1
           = Inr (he, r2)" and
    ap: "apply_anonymous_routing G hide_ratio s =
       Inr ((length (heap s), hn, he),
            s\<lparr>heap := heap s @ [remove_edges_from (remove_nodes_from g hn) he], rand := r2\<rparr>)"
    unfolding g_def
    by (rule apply_anonymous_routing_returns [OF assms(2-4) length_edges_list])
  define ga where "ga = remove_edges_from (remove_nodes_from g hn) he"
  define s1 where "s1 = s\<lparr>heap := heap s @ [ga], rand := r2\<rparr>"
  define gr where "gr = add_edges_from (add_nodes_from ga hn) he"
  define s2 where "s2 = s1\<lparr>heap := heap s1 @ [gr]\<rparr>"
  have ap': "apply_anonymous_routing G hide_ratio s = Inr ((length (heap s), hn, he), s1)"
    using ap by (simp add: s1_def ga_def)
  have l1: "length (heap s) < length (heap s1)" "heap s1 ! length (heap s) = ga"
    "length (heap s1) = Suc (length (heap s))"
    by (simp_all add: s1_def)
  have re: "restore_topology (length (heap s)) hn he s1 = (Suc (length (heap s)), s2)"
    using restore_topology_eq [OF l1(1), of hn he] by (simp add: l1 s2_def gr_def)
  have h: "heap s2 ! Suc (length (heap s)) = gr"
    using l1(3) by (simp add: s2_def nth_append)
  have hn: "set hn \<subseteq> nodes_of g"
    using sample_props(4) [OF sn] by (simp add: nodes_of_def)
  have he: "set he \<subseteq> set (edges_list g)"
    using sample_props(4) [OF se] .
  then have ends: "fst ` set he \<subseteq> nodes_of g" "snd ` set he \<subseteq> nodes_of g"
    using edge_endpoints_in_nodes [OF wf] by auto
  have n: "nodes_of gr = nodes_of g"
    using hn ends
    unfolding gr_def ga_def nodes_of_add_edges_from nodes_of_add_nodes_from
      nodes_of_remove_edges_from nodes_of_remove_nodes_from
    by blast
  have "uedge ` set he \<subseteq> edges_of g" using he by (auto simp: edges_of_def)
  then have e: "edges_of gr \<subseteq> edges_of g"
    unfolding gr_def ga_def edges_of_add_edges_from edges_of_add_nodes_from
      edges_of_remove_edges_from edges_of_remove_nodes_from [OF wf]
    by blast
  have "apply_anonymous_routing G hide_ratio s = Inr ((length (heap s), hn, he), s1) \<and>
        restore_topology (length (heap s)) hn he s1 = (Suc (length (heap s)), s2) \<and>
        nodes_of (heap s2 ! Suc (length (heap s))) = nodes_of (heap s ! G) \<and>
        edges_of (heap s2 ! Suc (length (heap s))) \<subseteq> edges_of (heap s ! G)"
    using ap' re n e unfolding h g_def by simp
  then show ?thesis by (intro exI)
qed

lemma wf_path3: "wf_graph path3"
  by (simp add: wf_graph_def path3_def nodes_list_def edges_list_def nodes_of_def uedge_def
      doubleton_eq_iff)

theorem restore_nodes_equal_edges_subset_witness:
  "wf_graph (heap \<lparr>heap = [path3], rand = (\<lambda>i. if i = 1 then 1 else 0)\<rparr> ! 0) \<and>
   0 < length (heap \<lparr>heap = [path3], rand = (\<lambda>i. if i = 1 then 1 else 0)\<rparr>) \<and>
   (0::real) \<le> 1 / 2 \<and> (1 / 2 :: real) \<le> 1 \<and>
   (\<exists>G_anon hn he s1 G_restored s2.
      apply_anonymous_routing 0 (1 / 2) \<lparr>heap = [path3], rand = (\<lambda>i. if i = 1 then 1 else 0)\<rparr>
        = Inr ((G_anon, hn, he), s1) \<and>
      restore_topology G_anon hn he s1 = (G_restored, s2) \<and>
      nodes_of (heap s2 ! G_restored) = nodes_of path3 \<and>
      edges_of (heap s2 ! G_restored) \<subseteq> edges_of path3)"
  using restore_nodes_equal_edges_subset
    [of "\<lparr>heap = [path3], rand = (\<lambda>i. if i = 1 then 1 else 0)\<rparr>" 0 "1 / 2"]
  by (simp add: wf_path3)

text \<open>
  C6: for a hide ratio in \<open>[0, 1]\<close>, \<open>apply_anonymous_routing\<close> returns and leaves the graph
  object it was given as it was: same nodes, same edges (and same attributes).
\<close>

theorem conceal_does_not_mutate:
  assumes "G < length (heap s)" and "0 \<le> hide_ratio" and "hide_ratio \<le> 1"
  shows "\<exists>res s'. apply_anonymous_routing G hide_ratio s = Inr (res, s') \<and>
           heap s' ! G = heap s ! G \<and>
           nodes_of (heap s' ! G) = nodes_of (heap s ! G) \<and>
           edges_of (heap s' ! G) = edges_of (heap s ! G)"
proof -
  obtain hn he r1 r2 where
    ap: "apply_anonymous_routing G hide_ratio s =
       Inr ((length (heap s), hn, he),
            s\<lparr>heap := heap s @ [remove_edges_from (remove_nodes_from (heap s ! G) hn) he],
              rand := r2\<rparr>)"
    by (rule apply_anonymous_routing_returns [OF assms length_edges_list])
  define s' where
    "s' = s\<lparr>heap := heap s @ [remove_edges_from (remove_nodes_from (heap s ! G) hn) he],
             rand := r2\<rparr>"
  have "heap s' ! G = heap s ! G" using assms(1) by (simp add: s'_def nth_append)
  then have "apply_anonymous_routing G hide_ratio s = Inr ((length (heap s), hn, he), s') \<and>
      heap s' ! G = heap s ! G \<and>
      nodes_of (heap s' ! G) = nodes_of (heap s ! G) \<and>
      edges_of (heap s' ! G) = edges_of (heap s ! G)"
    using ap by (simp add: s'_def)
  then show ?thesis by (intro exI)
qed

theorem conceal_does_not_mutate_witness:
  "0 < length (heap \<lparr>heap = [path3], rand = (\<lambda>i. 0)\<rparr>) \<and>
   (0::real) \<le> 1 / 2 \<and> (1 / 2 :: real) \<le> 1 \<and>
   (\<exists>res s'. apply_anonymous_routing 0 (1 / 2) \<lparr>heap = [path3], rand = (\<lambda>i. 0)\<rparr> = Inr (res, s') \<and>
      heap s' ! 0 = path3 \<and>
      nodes_of (heap s' ! 0) = nodes_of path3 \<and>
      edges_of (heap s' ! 0) = edges_of path3)"
  using conceal_does_not_mutate [of 0 "\<lparr>heap = [path3], rand = (\<lambda>i. 0)\<rparr>" "1 / 2"]
  by simp


lemma card_edges_of: "wf_graph g \<Longrightarrow> card (edges_of g) = number_of_edges g"
proof -
  assume "wf_graph g"
  then have "distinct (map uedge (edges_list g))" by (simp add: wf_graph_def)
  then have "card (set (map uedge (edges_list g))) = length (map uedge (edges_list g))"
    by (rule distinct_card)
  then show ?thesis by (simp add: edges_of_def length_edges_list)
qed





lemma remove_edges_from_absent:
  "edges_of g = {} \<Longrightarrow> remove_edges_from g es = g"
  unfolding remove_edges_from_def
  by (induction es) (simp_all add: remove_edge_def has_edge_iff)

lemma nodes_of_empty_iff: "nodes_of g = {} \<longleftrightarrow> number_of_nodes g = 0"
  by (simp add: nodes_of_def nodes_list_def number_of_nodes_def)

lemma edges_of_empty_iff: "edges_of g = {} \<longleftrightarrow> number_of_edges g = 0"
  by (simp add: edges_of_def edges_list_def number_of_edges_def)

text \<open>
  C9: with hide ratio 1, the hidden nodes are all the nodes of the graph, the anonymous
  graph has no node and no edge, and removing the hidden edges after the hidden nodes
  changes nothing (and raises nothing): the edges are gone already.
\<close>

theorem hide_ratio_one:
  assumes "wf_graph (heap s ! G)" and "G < length (heap s)"
  shows "\<exists>G_anon hn he s'.
           apply_anonymous_routing G 1 s = Inr ((G_anon, hn, he), s') \<and>
           set hn = nodes_of (heap s ! G) \<and>
           number_of_nodes (heap s' ! G_anon) = 0 \<and>
           number_of_edges (heap s' ! G_anon) = 0 \<and>
           nodes_of (heap s' ! G_anon) = {} \<and> edges_of (heap s' ! G_anon) = {} \<and>
           remove_edges_from (remove_nodes_from (heap s ! G) hn) he
             = remove_nodes_from (heap s ! G) hn"
proof -
  define g where "g = heap s ! G"
  have wf: "wf_graph g" using assms(1) by (simp add: g_def)
  obtain hn he r1 r2 where
    sn: "sample (nodes_list g) (py_int (1 * real (number_of_nodes g))) (rand s)
           = Inr (hn, r1)" and
    ap: "apply_anonymous_routing G 1 s =
       Inr ((length (heap s), hn, he),
            s\<lparr>heap := heap s @ [remove_edges_from (remove_nodes_from g hn) he], rand := r2\<rparr>)"
    unfolding g_def
    by (rule apply_anonymous_routing_returns [OF assms(2) _ _ length_edges_list, of 1]) simp_all
  define gn where "gn = remove_nodes_from g hn"
  define s' where "s' = s\<lparr>heap := heap s @ [remove_edges_from gn he], rand := r2\<rparr>"
  have dn: "distinct (nodes_list g)" using wf by (simp add: wf_graph_def)
  have "length hn = length (nodes_list g)"
    using sample_props(3) [OF sn] by (simp add: py_int_def length_nodes_list)
  moreover have "distinct hn" "set hn \<subseteq> set (nodes_list g)"
    using sample_props(4,5) [OF sn] dn by simp_all
  ultimately have "card (set hn) = card (set (nodes_list g))" "set hn \<subseteq> set (nodes_list g)"
    using dn by (simp_all add: distinct_card)
  then have "set hn = set (nodes_list g)" by (intro card_subset_eq) simp_all
  then have all: "set hn = nodes_of g" by (simp add: nodes_of_def)
  have n0: "nodes_of gn = {}" by (simp add: gn_def nodes_of_remove_nodes_from all)
  have "x \<inter> nodes_of g \<noteq> {}" if "x \<in> edges_of g" for x
  proof -
    from that obtain e where e: "e \<in> set (edges_list g)" "x = uedge e" by (auto simp: edges_of_def)
    with edge_endpoints_in_nodes [OF wf e(1)] show ?thesis by (auto simp: uedge_def)
  qed
  then have e0: "edges_of gn = {}"
    by (auto simp: gn_def edges_of_remove_nodes_from [OF wf] all)
  have noop: "remove_edges_from gn he = gn" using e0 by (rule remove_edges_from_absent)
  have h: "heap s' ! length (heap s) = gn" by (simp add: s'_def noop)
  have "apply_anonymous_routing G 1 s = Inr ((length (heap s), hn, he), s') \<and>
        set hn = nodes_of (heap s ! G) \<and>
        number_of_nodes (heap s' ! length (heap s)) = 0 \<and>
        number_of_edges (heap s' ! length (heap s)) = 0 \<and>
        nodes_of (heap s' ! length (heap s)) = {} \<and> edges_of (heap s' ! length (heap s)) = {} \<and>
        remove_edges_from (remove_nodes_from (heap s ! G) hn) he
          = remove_nodes_from (heap s ! G) hn"
    unfolding h using ap all n0 e0 noop
    by (simp add: s'_def gn_def g_def nodes_of_empty_iff edges_of_empty_iff)
  then show ?thesis by (intro exI)
qed

theorem hide_ratio_one_witness:
  "wf_graph (heap \<lparr>heap = [path3], rand = (\<lambda>i. 0)\<rparr> ! 0) \<and>
   0 < length (heap \<lparr>heap = [path3], rand = (\<lambda>i. 0)\<rparr>) \<and>
   (\<exists>G_anon hn he s'.
      apply_anonymous_routing 0 1 \<lparr>heap = [path3], rand = (\<lambda>i. 0)\<rparr> = Inr ((G_anon, hn, he), s') \<and>
      set hn = nodes_of path3 \<and>
      number_of_nodes (heap s' ! G_anon) = 0 \<and>
      number_of_edges (heap s' ! G_anon) = 0 \<and>
      nodes_of (heap s' ! G_anon) = {} \<and> edges_of (heap s' ! G_anon) = {} \<and>
      remove_edges_from (remove_nodes_from path3 hn) he = remove_nodes_from path3 hn)"
  using hide_ratio_one [of "\<lparr>heap = [path3], rand = (\<lambda>i. 0)\<rparr>" 0]
  by (simp add: wf_path3)

section \<open>Concrete runs\<close>

lemma sample_loop_0: "sample_loop 0 pool l r = ([], r)" by simp

lemma sample_loop_numeral:
  "sample_loop (numeral k) pool l r =
     (let (j, r') = randbelow l r;
          x = pool ! j;
          pool' = pool[j := pool ! (l - 1)];
          (xs, r'') = sample_loop (pred_numeral k) pool' (l - 1) r'
      in (x # xs, r''))"
  by (simp add: numeral_eq_Suc)

lemma sample_loop_1:
  "sample_loop 1 pool l r =
     (let (j, r') = randbelow l r;
          x = pool ! j;
          pool' = pool[j := pool ! (l - 1)];
          (xs, r'') = sample_loop 0 pool' (l - 1) r'
      in (x # xs, r''))"
  using sample_loop.simps(2) [of 0 pool l r] by simp

lemmas eval_simps =
  apply_anonymous_routing_def restore_topology_def copy_def new_graph_def call_def
  random_sample_def sample_def sample_loop_numeral sample_loop_1 randbelow_def py_int_def
  nodes_list_def edges_list_def number_of_nodes_def number_of_edges_def
  remove_nodes_from_def remove_edges_from_def remove_node_def remove_edge_def
  add_nodes_from_def add_edges_from_def add_node_def add_edge_def
  has_node_def has_edge_def same_edge_def Let_def





text \<open>
  C1 fails on the code. Concealing the single edge \<open>0 - 1\<close> with ratio \<open>1/2\<close> hides one node
  and no edge; the edge goes with the node and is not in the list of hidden edges, so the
  restored graph has both nodes and no edge, whatever the random source draws.
\<close>

theorem restore_loses_edge_of_hidden_node:
  "\<exists>G_anon hn s1 G_restored s2.
     apply_anonymous_routing 0 (1 / 2) \<lparr>heap = [edge2], rand = r\<rparr> = Inr ((G_anon, hn, []), s1) \<and>
     restore_topology G_anon hn [] s1 = (G_restored, s2) \<and>
     nodes_of (heap s2 ! G_restored) = {0, 1} \<and>
     edges_of (heap s2 ! G_restored) = {} \<and>
     nodes_of edge2 = {0, 1} \<and>
     edges_of edge2 = {{0, 1}}"
proof -
  have "r 0 mod Suc (Suc 0) = 0 \<or> r 0 mod Suc (Suc 0) = Suc 0" by arith
  then show ?thesis
  proof
    assume "r 0 mod Suc (Suc 0) = 0"
    then show ?thesis
      by (auto simp: eval_simps edge2_def nodes_of_def edges_of_def uedge_def)
  next
    assume "r 0 mod Suc (Suc 0) = Suc 0"
    then show ?thesis
      by (auto simp: eval_simps edge2_def nodes_of_def edges_of_def uedge_def)
  qed
qed

section \<open>Setting attributes\<close>

lemma map_of_map_upd:
  "map_of (map (\<lambda>(m, d). if m = n then (m, f d) else (m, d)) xs) x =
     (if x = n then map_option f (map_of xs x) else map_of xs x)"
  by (induction xs) auto

lemma node_setitem_eq:
  "node_setitem g n k v = Inr g' \<longleftrightarrow>
     n \<in> nodes_of g \<and>
     g' = g\<lparr>node_d := map (\<lambda>(m, d). if m = n then (m, AList.update k v d) else (m, d))
                          (node_d g)\<rparr>"
  by (auto simp: node_setitem_def has_node_iff)

lemma node_setitem_fails: "node_setitem g n k v = Inl e \<longleftrightarrow> e = KeyError \<and> n \<notin> nodes_of g"
  by (auto simp: node_setitem_def has_node_iff)

lemma node_setitem_frame:
  assumes "node_setitem g n k v = Inr g'"
  shows "nodes_list g' = nodes_list g" "edge_d g' = edge_d g"
  using assms by (auto simp: node_setitem_eq nodes_list_def case_prod_unfold intro!: map_idI)

lemma node_attr_node_setitem:
  assumes "node_setitem g n k v = Inr g'"
  shows "node_attr g' m k = (if m = n then Some v else node_attr g m k)"
proof -
  from assms have n: "n \<in> fst ` set (node_d g)"
    by (simp add: node_setitem_eq nodes_of_def nodes_list_def)
  then obtain d where "map_of (node_d g) n = Some d"
    by (metis domD dom_map_of_conv_image_fst)
  with assms show ?thesis
    by (simp add: node_setitem_eq node_attr_def map_of_map_upd update_conv')
qed

lemma find_map_upd:
  "find (\<lambda>(f, d). P f) (map (\<lambda>(f, d). if Q f then (f, h d) else (f, d)) xs) =
     map_option (\<lambda>(f, d). if Q f then (f, h d) else (f, d)) (find (\<lambda>(f, d). P f) xs)"
  by (induction xs) (simp_all add: case_prod_unfold)

lemma edge_setitem_eq:
  "edge_setitem g e k v = Inr g' \<longleftrightarrow>
     uedge e \<in> edges_of g \<and>
     g' = g\<lparr>edge_d := map (\<lambda>(f, d). if same_edge e f then (f, AList.update k v d) else (f, d))
                          (edge_d g)\<rparr>"
  by (auto simp: edge_setitem_def has_edge_iff)

lemma edge_setitem_fails:
  "edge_setitem g e k v = Inl x \<longleftrightarrow> x = KeyError \<and> uedge e \<notin> edges_of g"
  by (auto simp: edge_setitem_def has_edge_iff)

lemma edge_setitem_frame:
  assumes "edge_setitem g e k v = Inr g'"
  shows "edges_list g' = edges_list g" "node_d g' = node_d g"
  using assms by (auto simp: edge_setitem_eq edges_list_def case_prod_unfold intro!: map_idI)

lemma find_edge_Some:
  "uedge e \<in> uedge ` fst ` set xs \<Longrightarrow>
     \<exists>f d. find (\<lambda>(f, d). same_edge e f) xs = Some (f, d) \<and> uedge f = uedge e"
  by (induction xs) (auto simp: same_edge_uedge)

lemma find_edge_same:
  "find (\<lambda>(f, d). same_edge e f) xs = Some (f, d) \<Longrightarrow> uedge f = uedge e"
  by (induction xs) (auto simp: same_edge_uedge split: if_splits)

lemma edge_attr_edge_setitem:
  assumes "edge_setitem g e k v = Inr g'"
  shows "edge_attr g' x k = (if uedge x = uedge e then Some v else edge_attr g x k)"
proof (cases "find (\<lambda>(f, d). same_edge x f) (edge_d g)")
  case None
  then have "uedge x \<notin> uedge ` fst ` set (edge_d g)"
    using find_edge_Some [of x "edge_d g"] by auto
  moreover from assms have "uedge e \<in> uedge ` fst ` set (edge_d g)"
    by (simp add: edge_setitem_eq edges_of_def edges_list_def)
  ultimately have "uedge x \<noteq> uedge e" by auto
  with None assms show ?thesis
    by (simp add: edge_setitem_eq edge_attr_def find_map_upd)
next
  case (Some p)
  obtain f d where p: "p = (f, d)" by (cases p)
  from Some p have "uedge f = uedge x" by (simp add: find_edge_same)
  with Some p assms show ?thesis
    by (auto simp: edge_setitem_eq edge_attr_def find_map_upd same_edge_uedge update_conv')
qed

lemma mark_nodes_Inr:
  assumes "G < length (heap s)" and "set ns \<subseteq> nodes_of (heap s ! G)"
  shows "\<exists>g'. mark_nodes G ns s = Inr (s\<lparr>heap := (heap s)[G := g']\<rparr>) \<and>
           nodes_list g' = nodes_list (heap s ! G) \<and>
           edge_d g' = edge_d (heap s ! G) \<and>
           (\<forall>m. node_attr g' m ''hidden'' =
                  (if m \<in> set ns then Some True else node_attr (heap s ! G) m ''hidden''))"
  using assms
proof (induction ns arbitrary: s)
  case Nil
  have "s\<lparr>heap := (heap s)[G := heap s ! G]\<rparr> = s" by simp
  then show ?case by (intro exI [of _ "heap s ! G"]) simp
next
  case (Cons n ns)
  define g where "g = heap s ! G"
  from Cons.prems have n: "n \<in> nodes_of g" by (simp add: g_def)
  then obtain g1 where g1: "node_setitem g n ''hidden'' True = Inr g1"
    by (simp add: node_setitem_eq)
  define s1 where "s1 = s\<lparr>heap := (heap s)[G := g1]\<rparr>"
  have h1: "G < length (heap s1)" "heap s1 ! G = g1"
    using Cons.prems(1) by (simp_all add: s1_def)
  have nl: "nodes_list g1 = nodes_list g" "edge_d g1 = edge_d g"
    using node_setitem_frame [OF g1] by simp_all
  have sub: "set ns \<subseteq> nodes_of (heap s1 ! G)"
    using Cons.prems(2) by (simp add: h1 nodes_of_def nl g_def)
  from Cons.IH [OF h1(1) sub] obtain g' where
    m: "mark_nodes G ns s1 = Inr (s1\<lparr>heap := (heap s1)[G := g']\<rparr>)" and
    l: "nodes_list g' = nodes_list g1" "edge_d g' = edge_d g1" and
    a: "\<forall>m. node_attr g' m ''hidden'' =
            (if m \<in> set ns then Some True else node_attr g1 m ''hidden'')"
    unfolding h1 by blast
  have s: "s1\<lparr>heap := (heap s1)[G := g']\<rparr> = s\<lparr>heap := (heap s)[G := g']\<rparr>"
    by (simp add: s1_def)
  have step: "mark_nodes G (n # ns) s = mark_nodes G ns s1"
    using g1 by (simp add: g_def s1_def)
  have A: "mark_nodes G (n # ns) s = Inr (s\<lparr>heap := (heap s)[G := g']\<rparr>)"
    unfolding step m s ..
  have B: "nodes_list g' = nodes_list (heap s ! G)" "edge_d g' = edge_d (heap s ! G)"
    unfolding l nl g_def by (rule refl)+
  have D: "node_attr g' m ''hidden'' =
             (if m \<in> set (n # ns) then Some True else node_attr (heap s ! G) m ''hidden'')" for m
    using a [rule_format, of m] node_attr_node_setitem [OF g1, of m] by (auto simp: g_def)
  show ?case using A B D by blast
qed

lemma mark_nodes_Inl:
  assumes "G < length (heap s)" and "\<not> set ns \<subseteq> nodes_of (heap s ! G)"
  shows "mark_nodes G ns s = Inl KeyError"
  using assms
proof (induction ns arbitrary: s)
  case Nil
  then show ?case by simp
next
  case (Cons n ns)
  show ?case
  proof (cases "node_setitem (heap s ! G) n ''hidden'' True")
    case (Inl e)
    then have "e = KeyError" by (simp add: node_setitem_fails)
    with Inl show ?thesis by simp
  next
    case (Inr g1)
    define s1 where "s1 = s\<lparr>heap := (heap s)[G := g1]\<rparr>"
    have h1: "G < length (heap s1)" "heap s1 ! G = g1"
      using Cons.prems(1) by (simp_all add: s1_def)
    have "nodes_of g1 = nodes_of (heap s ! G)" "n \<in> nodes_of (heap s ! G)"
      using node_setitem_frame(1) [OF Inr] Inr by (simp_all add: nodes_of_def node_setitem_eq)
    with Cons.prems(2) have "\<not> set ns \<subseteq> nodes_of (heap s1 ! G)" by (simp add: h1)
    from Cons.IH [OF h1(1) this] show ?thesis using Inr by (simp add: s1_def)
  qed
qed

lemma mark_edges_Inr:
  assumes "G < length (heap s)" and "uedge ` set es \<subseteq> edges_of (heap s ! G)"
  shows "\<exists>g'. mark_edges G es s = Inr (s\<lparr>heap := (heap s)[G := g']\<rparr>) \<and>
           edges_list g' = edges_list (heap s ! G) \<and>
           node_d g' = node_d (heap s ! G) \<and>
           (\<forall>x. edge_attr g' x ''hidden'' =
                  (if uedge x \<in> uedge ` set es then Some True
                   else edge_attr (heap s ! G) x ''hidden''))"
  using assms
proof (induction es arbitrary: s)
  case Nil
  have "s\<lparr>heap := (heap s)[G := heap s ! G]\<rparr> = s" by simp
  then show ?case by (intro exI [of _ "heap s ! G"]) simp
next
  case (Cons e es)
  define g where "g = heap s ! G"
  from Cons.prems have e: "uedge e \<in> edges_of g" by (simp add: g_def)
  then obtain g1 where g1: "edge_setitem g e ''hidden'' True = Inr g1"
    by (simp add: edge_setitem_eq)
  define s1 where "s1 = s\<lparr>heap := (heap s)[G := g1]\<rparr>"
  have h1: "G < length (heap s1)" "heap s1 ! G = g1"
    using Cons.prems(1) by (simp_all add: s1_def)
  have nl: "edges_list g1 = edges_list g" "node_d g1 = node_d g"
    using edge_setitem_frame [OF g1] by simp_all
  have sub: "uedge ` set es \<subseteq> edges_of (heap s1 ! G)"
    using Cons.prems(2) by (simp add: h1 edges_of_def nl g_def)
  from Cons.IH [OF h1(1) sub] obtain g' where
    m: "mark_edges G es s1 = Inr (s1\<lparr>heap := (heap s1)[G := g']\<rparr>)" and
    l: "edges_list g' = edges_list g1" "node_d g' = node_d g1" and
    a: "\<forall>x. edge_attr g' x ''hidden'' =
            (if uedge x \<in> uedge ` set es then Some True else edge_attr g1 x ''hidden'')"
    unfolding h1 by blast
  have s: "s1\<lparr>heap := (heap s1)[G := g']\<rparr> = s\<lparr>heap := (heap s)[G := g']\<rparr>"
    by (simp add: s1_def)
  have step: "mark_edges G (e # es) s = mark_edges G es s1"
    using g1 by (simp add: g_def s1_def)
  have A: "mark_edges G (e # es) s = Inr (s\<lparr>heap := (heap s)[G := g']\<rparr>)"
    unfolding step m s ..
  have B: "edges_list g' = edges_list (heap s ! G)" "node_d g' = node_d (heap s ! G)"
    unfolding l nl g_def by (rule refl)+
  have D: "edge_attr g' x ''hidden'' =
             (if uedge x \<in> uedge ` set (e # es) then Some True
              else edge_attr (heap s ! G) x ''hidden'')" for x
    using a [rule_format, of x] edge_attr_edge_setitem [OF g1, of x] by (simp add: g_def)
  show ?case using A B D by blast
qed

lemma mark_edges_Inl:
  assumes "G < length (heap s)" and "\<not> uedge ` set es \<subseteq> edges_of (heap s ! G)"
  shows "mark_edges G es s = Inl KeyError"
  using assms
proof (induction es arbitrary: s)
  case Nil
  then show ?case by simp
next
  case (Cons e es)
  show ?case
  proof (cases "edge_setitem (heap s ! G) e ''hidden'' True")
    case (Inl x)
    then have "x = KeyError" by (simp add: edge_setitem_fails)
    with Inl show ?thesis by simp
  next
    case (Inr g1)
    define s1 where "s1 = s\<lparr>heap := (heap s)[G := g1]\<rparr>"
    have h1: "G < length (heap s1)" "heap s1 ! G = g1"
      using Cons.prems(1) by (simp_all add: s1_def)
    have "edges_of g1 = edges_of (heap s ! G)" "uedge e \<in> edges_of (heap s ! G)"
      using edge_setitem_frame(1) [OF Inr] Inr by (simp_all add: edges_of_def edge_setitem_eq)
    with Cons.prems(2) have "\<not> uedge ` set es \<subseteq> edges_of (heap s1 ! G)" by (simp add: h1)
    from Cons.IH [OF h1(1) this] show ?thesis using Inr by (simp add: s1_def)
  qed
qed

section \<open>Marking\<close>

lemma node_attr_cong: "node_d g' = node_d g \<Longrightarrow> node_attr g' n k = node_attr g n k"
  by (simp add: node_attr_def)

lemma edge_attr_cong: "edge_d g' = edge_d g \<Longrightarrow> edge_attr g' e k = edge_attr g e k"
  by (simp add: edge_attr_def)

lemma mark_anonymous_routes_unfold:
  "mark_anonymous_routes G hn he s =
     (case mark_nodes (length (heap s)) hn (s\<lparr>heap := heap s @ [heap s ! G]\<rparr>) of
        Inl e \<Rightarrow> Inl e
      | Inr s2 \<Rightarrow>
          (case mark_edges (length (heap s)) he s2 of
             Inl e \<Rightarrow> Inl e
           | Inr s3 \<Rightarrow> Inr (length (heap s), s3)))"
  by (simp add: mark_anonymous_routes_def copy_def new_graph_def)

text \<open>
  C8: when a listed node is not a node of the graph, or a listed edge is not an edge of
  the graph, \<open>mark_anonymous_routes\<close> raises \<^verbatim>\<open>KeyError\<close> and returns no graph.
\<close>

theorem mark_absent_raises_KeyError:
  assumes "G < length (heap s)"
    and "(\<exists>n \<in> set hn. n \<notin> nodes_of (heap s ! G)) \<or>
         (\<exists>e \<in> set he. uedge e \<notin> edges_of (heap s ! G))"
  shows "mark_anonymous_routes G hn he s = Inl KeyError"
proof -
  define g where "g = heap s ! G"
  define s1 where "s1 = s\<lparr>heap := heap s @ [g]\<rparr>"
  define Gm where "Gm = length (heap s)"
  have h1: "Gm < length (heap s1)" "heap s1 ! Gm = g" by (simp_all add: s1_def Gm_def)
  show ?thesis
  proof (cases "set hn \<subseteq> nodes_of g")
    case False
    then have "mark_nodes Gm hn s1 = Inl KeyError"
      using mark_nodes_Inl [OF h1(1)] by (simp add: h1)
    then show ?thesis
      by (simp add: mark_anonymous_routes_unfold g_def [symmetric] s1_def [symmetric]
          Gm_def [symmetric])
  next
    case True
    with assms(2) have ne: "\<not> uedge ` set he \<subseteq> edges_of g" by (auto simp: g_def)
    from mark_nodes_Inr [OF h1(1), of hn] True obtain g1 where
      m: "mark_nodes Gm hn s1 = Inr (s1\<lparr>heap := (heap s1)[Gm := g1]\<rparr>)" and
      e: "edge_d g1 = edge_d g"
      unfolding h1 by blast
    define s2 where "s2 = s1\<lparr>heap := (heap s1)[Gm := g1]\<rparr>"
    have h2: "Gm < length (heap s2)" "heap s2 ! Gm = g1" using h1(1) by (simp_all add: s2_def)
    have "edges_of g1 = edges_of g" using e by (simp add: edges_of_def edges_list_def)
    with ne have "mark_edges Gm he s2 = Inl KeyError"
      using mark_edges_Inl [OF h2(1)] by (simp add: h2)
    with m show ?thesis
      by (simp add: mark_anonymous_routes_unfold g_def [symmetric] s1_def [symmetric]
          Gm_def [symmetric] s2_def [symmetric])
  qed
qed

theorem mark_absent_raises_KeyError_witness:
  "0 < length (heap \<lparr>heap = [path3], rand = (\<lambda>i. 0)\<rparr>) \<and>
   ((\<exists>n \<in> set [0, 5]. n \<notin> nodes_of path3) \<or> (\<exists>e \<in> set []. uedge e \<notin> edges_of path3)) \<and>
   mark_anonymous_routes 0 [0, 5] [] \<lparr>heap = [path3], rand = (\<lambda>i. 0)\<rparr> = Inl KeyError"
  using mark_absent_raises_KeyError [of 0 "\<lparr>heap = [path3], rand = (\<lambda>i. 0)\<rparr>" "[0, 5]" "[]"]
  by (simp add: nodes_of_def nodes_list_def path3_def)

text \<open>
  C7 as stated fails: the copy keeps the attributes of the graph, so a node that carries
  \<^verbatim>\<open>hidden = True\<close> in the graph carries it in the marked graph, listed or not.
\<close>

theorem mark_keeps_earlier_marks:
  "mark_anonymous_routes 0 [] [] \<lparr>heap = [marked1], rand = (\<lambda>i. 0)\<rparr> =
     Inr (1, \<lparr>heap = [marked1, marked1], rand = (\<lambda>i. 0)\<rparr>) \<and>
   node_attr (heap \<lparr>heap = [marked1, marked1], rand = (\<lambda>i. 0)\<rparr> ! 1) 0 ''hidden'' = Some True \<and>
   (0::nat) \<notin> set []"
  by (simp add: mark_anonymous_routes_unfold node_attr_def marked1_def)

text \<open>
  C7, amended: for lists of nodes and edges of the graph, \<open>mark_anonymous_routes\<close> returns a
  new graph with the nodes and edges of the given one, in which a node carries
  \<^verbatim>\<open>hidden = True\<close> exactly when it is listed or carried it already, and an edge carries
  \<^verbatim>\<open>hidden = True\<close> exactly when it is listed (under either orientation) or carried it
  already. The given graph is not changed.
\<close>

theorem mark_sets_hidden:
  assumes "G < length (heap s)"
    and "set hn \<subseteq> nodes_of (heap s ! G)"
    and "uedge ` set he \<subseteq> edges_of (heap s ! G)"
  shows "\<exists>G_marked s'.
           mark_anonymous_routes G hn he s = Inr (G_marked, s') \<and>
           nodes_of (heap s' ! G_marked) = nodes_of (heap s ! G) \<and>
           edges_of (heap s' ! G_marked) = edges_of (heap s ! G) \<and>
           (\<forall>n. node_attr (heap s' ! G_marked) n ''hidden'' = Some True \<longleftrightarrow>
                  n \<in> set hn \<or> node_attr (heap s ! G) n ''hidden'' = Some True) \<and>
           (\<forall>e. edge_attr (heap s' ! G_marked) e ''hidden'' = Some True \<longleftrightarrow>
                  uedge e \<in> uedge ` set he \<or> edge_attr (heap s ! G) e ''hidden'' = Some True) \<and>
           heap s' ! G = heap s ! G"
proof -
  define g where "g = heap s ! G"
  define s1 where "s1 = s\<lparr>heap := heap s @ [g]\<rparr>"
  define Gm where "Gm = length (heap s)"
  have h1: "Gm < length (heap s1)" "heap s1 ! Gm = g" by (simp_all add: s1_def Gm_def)
  from mark_nodes_Inr [OF h1(1), of hn] assms(2) obtain g1 where
    m1: "mark_nodes Gm hn s1 = Inr (s1\<lparr>heap := (heap s1)[Gm := g1]\<rparr>)" and
    n1: "nodes_list g1 = nodes_list g" and e1: "edge_d g1 = edge_d g" and
    a1: "\<forall>m. node_attr g1 m ''hidden'' =
            (if m \<in> set hn then Some True else node_attr g m ''hidden'')"
    unfolding h1 g_def [symmetric] by blast
  define s2 where "s2 = s1\<lparr>heap := (heap s1)[Gm := g1]\<rparr>"
  have h2: "Gm < length (heap s2)" "heap s2 ! Gm = g1" using h1(1) by (simp_all add: s2_def)
  have eo1: "edges_of g1 = edges_of g" using e1 by (simp add: edges_of_def edges_list_def)
  from mark_edges_Inr [OF h2(1), of he] assms(3) obtain g2 where
    m2: "mark_edges Gm he s2 = Inr (s2\<lparr>heap := (heap s2)[Gm := g2]\<rparr>)" and
    e2: "edges_list g2 = edges_list g1" and n2: "node_d g2 = node_d g1" and
    a2: "\<forall>x. edge_attr g2 x ''hidden'' =
            (if uedge x \<in> uedge ` set he then Some True else edge_attr g1 x ''hidden'')"
    unfolding h2 eo1 g_def [symmetric] by blast
  define s3 where "s3 = s2\<lparr>heap := (heap s2)[Gm := g2]\<rparr>"
  have h3: "heap s3 ! Gm = g2" using h2(1) by (simp add: s3_def)
  have hG: "heap s3 ! G = heap s ! G"
    using assms(1) by (simp add: s3_def s2_def s1_def Gm_def nth_append)
  have run: "mark_anonymous_routes G hn he s = Inr (Gm, s3)"
    using m1 m2
    by (simp add: mark_anonymous_routes_unfold g_def [symmetric] s1_def [symmetric]
        Gm_def [symmetric] s2_def [symmetric] s3_def [symmetric])
  have N: "nodes_of g2 = nodes_of g"
    using n1 n2 by (simp add: nodes_of_def nodes_list_def)
  have E: "edges_of g2 = edges_of g"
    using e2 eo1 by (simp add: edges_of_def)
  have AN: "node_attr g2 n ''hidden'' = Some True \<longleftrightarrow>
              n \<in> set hn \<or> node_attr g n ''hidden'' = Some True" for n
    using a1 [rule_format, of n] node_attr_cong [OF n2, of n "''hidden''"] by auto
  have AE: "edge_attr g2 e ''hidden'' = Some True \<longleftrightarrow>
              uedge e \<in> uedge ` set he \<or> edge_attr g e ''hidden'' = Some True" for e
    using a2 [rule_format, of e] edge_attr_cong [OF e1, of e "''hidden''"] by auto
  have "mark_anonymous_routes G hn he s = Inr (Gm, s3) \<and>
        nodes_of (heap s3 ! Gm) = nodes_of (heap s ! G) \<and>
        edges_of (heap s3 ! Gm) = edges_of (heap s ! G) \<and>
        (\<forall>n. node_attr (heap s3 ! Gm) n ''hidden'' = Some True \<longleftrightarrow>
               n \<in> set hn \<or> node_attr (heap s ! G) n ''hidden'' = Some True) \<and>
        (\<forall>e. edge_attr (heap s3 ! Gm) e ''hidden'' = Some True \<longleftrightarrow>
               uedge e \<in> uedge ` set he \<or> edge_attr (heap s ! G) e ''hidden'' = Some True) \<and>
        heap s3 ! G = heap s ! G"
    unfolding h3 using run N E AN AE hG unfolding g_def by blast
  then show ?thesis by (intro exI)
qed

theorem mark_sets_hidden_witness:
  "0 < length (heap \<lparr>heap = [path3], rand = (\<lambda>i. 0)\<rparr>) \<and>
   set [0] \<subseteq> nodes_of path3 \<and>
   uedge ` set [(2, 1)] \<subseteq> edges_of path3 \<and>
   (\<exists>G_marked s'.
      mark_anonymous_routes 0 [0] [(2, 1)] \<lparr>heap = [path3], rand = (\<lambda>i. 0)\<rparr>
        = Inr (G_marked, s') \<and>
      nodes_of (heap s' ! G_marked) = nodes_of path3 \<and>
      edges_of (heap s' ! G_marked) = edges_of path3 \<and>
      (\<forall>n. node_attr (heap s' ! G_marked) n ''hidden'' = Some True \<longleftrightarrow>
             n \<in> set [0] \<or> node_attr path3 n ''hidden'' = Some True) \<and>
      (\<forall>e. edge_attr (heap s' ! G_marked) e ''hidden'' = Some True \<longleftrightarrow>
             uedge e \<in> uedge ` set [(2, 1)] \<or> edge_attr path3 e ''hidden'' = Some True) \<and>
      heap s' ! 0 = path3)"
  using mark_sets_hidden [of 0 "\<lparr>heap = [path3], rand = (\<lambda>i. 0)\<rparr>" "[0]" "[(2, 1)]"]
  by (simp add: nodes_of_def edges_of_def nodes_list_def edges_list_def uedge_def path3_def
      insert_commute)

section \<open>The complete graph\<close>

lemma set_combinations2:
  "sorted_wrt (<) xs \<Longrightarrow>
     set (combinations2 xs) = {(x, y). x \<in> set xs \<and> y \<in> set xs \<and> x < y}"
  for xs :: "nat list"
  by (induction xs) auto

lemma length_combinations2_aux:
  "2 * length (combinations2 xs) + length xs = length xs * length xs"
  by (induction xs) (auto simp: algebra_simps)

lemma length_combinations2: "length (combinations2 xs) = length xs * (length xs - 1) div 2"
proof -
  have "length xs * (length xs - 1) = length xs * length xs - length xs"
    by (simp add: algebra_simps)
  also have "\<dots> = 2 * length (combinations2 xs)"
    using length_combinations2_aux [of xs] by arith
  finally show ?thesis by simp
qed

lemma distinct_combinations2: "distinct xs \<Longrightarrow> distinct (combinations2 xs)"
proof (induction xs)
  case Nil
  then show ?case by simp
next
  case (Cons x xs)
  have "distinct (map (Pair x) xs)" using Cons.prems by (simp add: distinct_map inj_on_def)
  moreover have "set (map (Pair x) xs) \<inter> set (combinations2 xs) = {}"
  proof -
    have "fst ` set (combinations2 ys) \<subseteq> set ys" for ys :: "'a list"
      by (induction ys) auto
    then have "x \<notin> fst ` set (combinations2 xs)" using Cons.prems by auto
    then show ?thesis by force
  qed
  ultimately show ?case using Cons by simp
qed

lemma uedge_inj_ordered: "inj_on uedge {(x :: nat, y). x < y}"
  by (auto simp: inj_on_def uedge_def doubleton_eq_iff)

lemma distinct_uedge_combinations2:
  "sorted_wrt (<) xs \<Longrightarrow> distinct (map uedge (combinations2 xs))" for xs :: "nat list"
proof -
  assume s: "sorted_wrt (<) xs"
  then have "distinct xs" by (simp add: strict_sorted_iff)
  then have d: "distinct (combinations2 xs)" by (rule distinct_combinations2)
  have "set (combinations2 xs) \<subseteq> {(x, y). x < y}" using set_combinations2 [OF s] by auto
  with uedge_inj_ordered have "inj_on uedge (set (combinations2 xs))" by (rule inj_on_subset)
  with d show ?thesis by (simp add: distinct_map)
qed

lemma wf_empty_graph: "wf_graph empty_graph"
  by (simp add: wf_graph_def empty_graph_def nodes_list_def edges_list_def)

lemma nodes_list_add_nodes_from_fresh:
  "distinct (nodes_list g @ ns) \<Longrightarrow> nodes_list (add_nodes_from g ns) = nodes_list g @ ns"
  unfolding add_nodes_from_def
  by (induction ns arbitrary: g) (auto simp: nodes_list_add_node)

lemma edges_list_add_nodes_from: "edges_list (add_nodes_from g ns) = edges_list g"
  unfolding add_nodes_from_def
  by (induction ns arbitrary: g) (auto simp: edges_list_add_node)

lemma nodes_list_range_graph: "nodes_list (add_nodes_from empty_graph [0..<n]) = [0..<n]"
  using nodes_list_add_nodes_from_fresh [of empty_graph "[0..<n]"]
  by (simp add: empty_graph_def nodes_list_def)

lemma nodes_list_add_edges_from_inside:
  "fst ` set es \<union> snd ` set es \<subseteq> set (nodes_list g) \<Longrightarrow>
     nodes_list (add_edges_from g es) = nodes_list g"
  unfolding add_edges_from_def
  by (induction es arbitrary: g) (auto simp: nodes_list_add_edge nodes_list_add_node)

lemma complete_graph_props:
  "wf_graph (complete_graph n)"
  "nodes_list (complete_graph n) = [0..<n]"
  "edges_of (complete_graph n) = uedge ` {(i, j). i < j \<and> j < n}"
  "number_of_edges (complete_graph n) = n * (n - 1) div 2"
proof -
  let ?g = "add_nodes_from empty_graph [0..<n]"
  let ?es = "combinations2 [0..<n]"
  have s: "sorted_wrt (<) [0..<n]" by (simp add: sorted_wrt_upt)
  have es: "set ?es = {(i, j). i < j \<and> j < n}" using set_combinations2 [OF s] by auto
  have wf0: "wf_graph ?g" by (simp add: wf_add_nodes_from wf_empty_graph)
  have e0: "edges_of ?g = {}"
    by (simp add: edges_of_add_nodes_from) (simp add: edges_of_def edges_list_def empty_graph_def)
  have cg: "complete_graph n = add_edges_from ?g ?es"
  proof (cases "n > 1")
    case True then show ?thesis by (simp add: complete_graph_def)
  next
    case False
    then have "n = 0 \<or> n = 1" by arith
    then have "?es = []" by auto
    then show ?thesis using False by (simp add: complete_graph_def add_edges_from_def)
  qed
  show wf: "wf_graph (complete_graph n)" unfolding cg using wf0 by (rule wf_add_edges_from)
  have "fst ` set ?es \<union> snd ` set ?es \<subseteq> set (nodes_list ?g)"
    unfolding es nodes_list_range_graph by auto
  then show "nodes_list (complete_graph n) = [0..<n]"
    unfolding cg by (simp add: nodes_list_add_edges_from_inside nodes_list_range_graph)
  show eo: "edges_of (complete_graph n) = uedge ` {(i, j). i < j \<and> j < n}"
    unfolding cg by (simp add: edges_of_add_edges_from e0 es)
  have "number_of_edges (complete_graph n) = card (edges_of (complete_graph n))"
    using card_edges_of [OF wf] by simp
  also have "\<dots> = card (set (map uedge ?es))" by (simp add: eo es)
  also have "\<dots> = length (map uedge ?es)"
    using distinct_uedge_combinations2 [OF s] by (rule distinct_card)
  also have "\<dots> = n * (n - 1) div 2" by (simp add: length_combinations2)
  finally show "number_of_edges (complete_graph n) = n * (n - 1) div 2" .
qed

section \<open>Dense requests\<close>

lemma gnm_random_graph_dense:
  assumes "n * (n - 1) \<le> 2 * m"
  shows "gnm_random_graph n m r = Some (Inr (complete_graph n, r))"
proof (cases "n = 1")
  case True
  then have "complete_graph n = add_nodes_from empty_graph [0..<n]"
    by (simp add: complete_graph_def)
  with True show ?thesis by (simp add: gnm_random_graph_def)
next
  case False
  with assms show ?thesis by (simp add: gnm_random_graph_def)
qed

text \<open>
  C2 as stated fails: asked for 5 edges on 3 nodes, where at most 3 are possible,
  \<open>create_random_topology\<close> raises nothing and returns the triangle.
\<close>

theorem too_many_edges_gives_triangle:
  "create_random_topology 3 5 \<lparr>heap = [], rand = (\<lambda>i. 0)\<rparr> =
     Some (Inr (0, \<lparr>heap = [\<lparr>node_d = [(0, []), (1, []), (2, [])],
                               edge_d = [((0, 1), []), ((0, 2), []), ((1, 2), [])]\<rparr>],
                      rand = (\<lambda>i. 0)\<rparr>))"
  by (simp add: create_random_topology_def gnm_random_graph_def complete_graph_def new_graph_def
      empty_graph_def eval_simps upt_rec numeral_eq_Suc)

text \<open>
  C2, amended: when the number of edges asked for exceeds \<open>n (n - 1) / 2\<close>,
  \<open>create_random_topology\<close> raises nothing: it returns the complete graph on the nodes
  \<open>0, ..., n - 1\<close>, which has \<open>n (n - 1) / 2\<close> edges, fewer than asked for.
\<close>

theorem too_many_edges_gives_complete_graph:
  assumes "num_nodes * (num_nodes - 1) div 2 < num_edges"
  shows "\<exists>g. create_random_topology num_nodes num_edges s =
               Some (Inr (length (heap s), s\<lparr>heap := heap s @ [g]\<rparr>)) \<and>
             wf_graph g \<and>
             nodes_of g = {0..<num_nodes} \<and>
             edges_of g = uedge ` {(i, j). i < j \<and> j < num_nodes} \<and>
             number_of_edges g = num_nodes * (num_nodes - 1) div 2 \<and>
             number_of_edges g < num_edges"
proof -
  from assms have "num_nodes * (num_nodes - 1) \<le> 2 * num_edges" by arith
  then have "gnm_random_graph num_nodes num_edges (rand s) =
      Some (Inr (complete_graph num_nodes, rand s))"
    by (rule gnm_random_graph_dense)
  then have "create_random_topology num_nodes num_edges s =
      Some (Inr (length (heap s), s\<lparr>heap := heap s @ [complete_graph num_nodes]\<rparr>))"
    by (simp add: create_random_topology_def new_graph_def)
  moreover have "nodes_of (complete_graph num_nodes) = {0..<num_nodes}"
    by (simp add: nodes_of_def complete_graph_props(2))
  ultimately show ?thesis
    using complete_graph_props [of num_nodes] assms by (intro exI [of _ "complete_graph num_nodes"]) simp
qed

theorem too_many_edges_gives_complete_graph_witness:
  "3 * (3 - 1) div 2 < (5::nat) \<and>
   (\<exists>g. create_random_topology 3 5 \<lparr>heap = [], rand = (\<lambda>i. 0)\<rparr> =
           Some (Inr (length (heap \<lparr>heap = [] :: nat graph list, rand = (\<lambda>i. 0)\<rparr>),
                      \<lparr>heap = [] :: nat graph list, rand = (\<lambda>i. 0)\<rparr>
                        \<lparr>heap := heap \<lparr>heap = [] :: nat graph list, rand = (\<lambda>i. 0)\<rparr> @ [g]\<rparr>)) \<and>
        wf_graph g \<and>
        nodes_of g = {0..<3} \<and>
        edges_of g = uedge ` {(i, j). i < j \<and> j < 3} \<and>
        number_of_edges g = 3 * (3 - 1) div 2 \<and>
        number_of_edges g < 5)"
  using too_many_edges_gives_complete_graph [of 3 5 "\<lparr>heap = [], rand = (\<lambda>i. 0)\<rparr>"]
  by simp

section \<open>The random graph loop\<close>

lemma gnm_loop_done: "\<not> ec < m \<Longrightarrow> gnm_loop nlist m g ec r = Some (Inr (g, r))"
  by (subst gnm_loop.simps) simp

lemma gnm_loop_step:
  assumes "0 < n" and "ec < m"
  shows "gnm_loop [0..<n] m g ec r =
     (if r 0 mod n = r 1 mod n \<or> has_edge g (r 0 mod n, r 1 mod n)
      then gnm_loop [0..<n] m g ec (\<lambda>i. r (i + 2))
      else gnm_loop [0..<n] m (add_edge g (r 0 mod n, r 1 mod n)) (ec + 1) (\<lambda>i. r (i + 2)))"
proof -
  have ne: "[0..<n] \<noteq> []" using assms(1) by simp
  have c1: "choice [0..<n] r = Inr (r 0 mod n, \<lambda>i. r (Suc i))"
    using assms(1) by (simp add: choice_def randbelow_def)
  have c2: "choice [0..<n] (\<lambda>i. r (Suc i)) = Inr (r 1 mod n, \<lambda>i. r (i + 2))"
    using assms(1) by (simp add: choice_def randbelow_def)
  show ?thesis
    by (subst gnm_loop.simps) (simp add: assms(2) c1 c2)
qed

lemma simple_on_add_edge:
  assumes "simple_on n g" and "u < n" and "v < n" and "u \<noteq> v" and "\<not> has_edge g (u, v)"
  shows "simple_on n (add_edge g (u, v))"
    and "number_of_edges (add_edge g (u, v)) = number_of_edges g + 1"
proof -
  have nl: "nodes_list g = [0..<n]" and wf: "wf_graph g"
    and nsl: "\<forall>e \<in> set (edges_list g). fst e \<noteq> snd e"
    using assms(1) by (simp_all add: simple_on_def)
  have ne: "uedge (u, v) \<notin> uedge ` set (edges_list g)"
    using assms(5) by (simp add: has_edge_iff edges_of_def)
  have nl': "nodes_list (add_edge g (u, v)) = [0..<n]"
    using assms(2,3) by (simp add: nodes_list_add_edge nodes_list_add_node nl)
  have el': "edges_list (add_edge g (u, v)) = edges_list g @ [(u, v)]"
    using ne by (simp add: edges_list_add_edge)
  show "simple_on n (add_edge g (u, v))"
    using wf_add_edge [OF wf, of "(u, v)"] nl' el' nsl assms(4) by (simp add: simple_on_def)
  show "number_of_edges (add_edge g (u, v)) = number_of_edges g + 1"
    using el' by (simp add: length_edges_list [symmetric])
qed

lemma fair_shift: "fair n r \<Longrightarrow> fair n (\<lambda>i. r (i + 2 * k))"
  unfolding fair_def
proof (intro allI impI)
  fix u v p
  assume f: "\<forall>u<n. \<forall>v<n. \<forall>p. \<exists>q\<ge>p. r (2 * q) mod n = u \<and> r (2 * q + 1) mod n = v"
    and "u < n" "v < n"
  then obtain q where q: "q \<ge> p + k" "r (2 * q) mod n = u" "r (2 * q + 1) mod n = v"
    by blast
  have "2 * (q - k) + 2 * k = 2 * q" "2 * (q - k) + 1 + 2 * k = 2 * q + 1" using q(1) by arith+
  then have "q - k \<ge> p \<and> r (2 * (q - k) + 2 * k) mod n = u \<and> r (2 * (q - k) + 1 + 2 * k) mod n = v"
    using q by simp
  then show "\<exists>q\<ge>p. r (2 * q + 2 * k) mod n = u \<and> r (2 * q + 1 + 2 * k) mod n = v"
    by blast
qed


lemma gnm_loop_progress:
  assumes "simple_on n g" and "0 < n" and "number_of_edges g = ec" and "ec < m"
    and "r (2 * q) mod n = u" and "r (2 * q + 1) mod n = v"
    and "u \<noteq> v" and "\<not> has_edge g (u, v)"
  shows "\<exists>g' k. gnm_loop [0..<n] m g ec r = gnm_loop [0..<n] m g' (ec + 1) (\<lambda>i. r (i + 2 * k)) \<and>
           simple_on n g' \<and> number_of_edges g' = ec + 1"
  using assms(5,6)
proof (induction q arbitrary: r)
  case 0
  then have uv: "r 0 mod n = u" "r 1 mod n = v" by simp_all
  have lt: "u < n" "v < n" using uv assms(2) by auto
  have "gnm_loop [0..<n] m g ec r =
      gnm_loop [0..<n] m (add_edge g (u, v)) (ec + 1) (\<lambda>i. r (i + 2 * 1))"
    using gnm_loop_step [OF assms(2,4), of g r] assms(7,8) unfolding uv by simp
  moreover have "simple_on n (add_edge g (u, v))"
    "number_of_edges (add_edge g (u, v)) = ec + 1"
    using simple_on_add_edge [OF assms(1) lt assms(7,8)] assms(3) by simp_all
  ultimately show ?case by (intro exI [of _ "add_edge g (u, v)"] exI [of _ 1]) simp
next
  case (Suc q)
  define u0 where "u0 = r 0 mod n"
  define v0 where "v0 = r 1 mod n"
  have lt: "u0 < n" "v0 < n" using assms(2) by (simp_all add: u0_def v0_def)
  have step: "gnm_loop [0..<n] m g ec r =
     (if u0 = v0 \<or> has_edge g (u0, v0)
      then gnm_loop [0..<n] m g ec (\<lambda>i. r (i + 2))
      else gnm_loop [0..<n] m (add_edge g (u0, v0)) (ec + 1) (\<lambda>i. r (i + 2)))"
    unfolding u0_def v0_def by (rule gnm_loop_step [OF assms(2,4)])
  show ?case
  proof (cases "u0 = v0 \<or> has_edge g (u0, v0)")
    case False
    then have "gnm_loop [0..<n] m g ec r =
        gnm_loop [0..<n] m (add_edge g (u0, v0)) (ec + 1) (\<lambda>i. r (i + 2 * 1))"
      using step by simp
    moreover have "simple_on n (add_edge g (u0, v0))"
      "number_of_edges (add_edge g (u0, v0)) = ec + 1"
      using simple_on_add_edge [OF assms(1) lt] False assms(3) by simp_all
    ultimately show ?thesis by (intro exI [of _ "add_edge g (u0, v0)"] exI [of _ 1]) simp
  next
    case True
    then have st: "gnm_loop [0..<n] m g ec r = gnm_loop [0..<n] m g ec (\<lambda>i. r (i + 2))"
      using step by simp
    have "(\<lambda>i. r (i + 2)) (2 * q) mod n = u" "(\<lambda>i. r (i + 2)) (2 * q + 1) mod n = v"
      using Suc.prems by (simp_all add: algebra_simps)
    from Suc.IH [OF this] obtain g' k where
      a: "gnm_loop [0..<n] m g ec (\<lambda>i. r (i + 2)) =
            gnm_loop [0..<n] m g' (ec + 1) (\<lambda>i. r (i + 2 * k + 2))"
      and b: "simple_on n g'" "number_of_edges g' = ec + 1" by auto
    have "(\<lambda>i. r (i + 2 * k + 2)) = (\<lambda>i. r (i + 2 * Suc k))" by (simp add: algebra_simps)
    then have "gnm_loop [0..<n] m g ec r =
        gnm_loop [0..<n] m g' (ec + 1) (\<lambda>i. r (i + 2 * Suc k))"
      using st a by simp
    then show ?thesis using b by (intro exI [of _ g'] exI [of _ "Suc k"]) simp
  qed
qed

lemma missing_pair:
  assumes "simple_on n g" and "number_of_edges g < n * (n - 1) div 2"
  shows "\<exists>u v. u < n \<and> v < n \<and> u \<noteq> v \<and> \<not> has_edge g (u, v)"
proof -
  let ?P = "uedge ` {(i, j). i < j \<and> j < n}"
  have wf: "wf_graph g" using assms(1) by (simp add: simple_on_def)
  have "card ?P = n * (n - 1) div 2"
    using card_edges_of [OF complete_graph_props(1) [of n]] complete_graph_props(3,4) [of n]
    by simp
  moreover have "card (edges_of g) = number_of_edges g" using wf by (rule card_edges_of)
  ultimately have lt: "card (edges_of g) < card ?P" using assms(2) by simp
  have "finite (edges_of g)" by (simp add: edges_of_def)
  then have "\<not> ?P \<subseteq> edges_of g" using lt card_mono [of "edges_of g" ?P] by auto
  then obtain i j where "i < j" "j < n" "uedge (i, j) \<notin> edges_of g" by auto
  then have "i < n \<and> j < n \<and> i \<noteq> j \<and> \<not> has_edge g (i, j)" by (simp add: has_edge_iff)
  then show ?thesis by blast
qed

lemma gnm_loop_terminates:
  assumes "fair n r" and "simple_on n g" and "0 < n" and "number_of_edges g = ec"
    and "ec \<le> m" and "m \<le> n * (n - 1) div 2"
  shows "\<exists>g' r'. gnm_loop [0..<n] m g ec r = Some (Inr (g', r')) \<and>
           simple_on n g' \<and> number_of_edges g' = m"
  using assms(1,2,4,5)
proof (induction "m - ec" arbitrary: g ec r)
  case 0
  then have "\<not> ec < m" "ec = m" by simp_all
  with gnm_loop_done [of ec m "[0..<n]" g r] 0 show ?case by auto
next
  case (Suc d)
  then have lt: "ec < m" by simp
  with Suc.prems assms(6) have "number_of_edges g < n * (n - 1) div 2" by simp
  from missing_pair [OF Suc.prems(2) this] obtain u v where
    uv: "u < n" "v < n" "u \<noteq> v" "\<not> has_edge g (u, v)" by blast
  from Suc.prems(1) uv(1,2) obtain q where
    q: "r (2 * q) mod n = u" "r (2 * q + 1) mod n = v"
    unfolding fair_def by blast
  from gnm_loop_progress [OF Suc.prems(2) assms(3) Suc.prems(3) lt q uv(3,4)]
  obtain g' k where
    st: "gnm_loop [0..<n] m g ec r = gnm_loop [0..<n] m g' (ec + 1) (\<lambda>i. r (i + 2 * k))"
    and g': "simple_on n g'" "number_of_edges g' = ec + 1" by blast
  have d: "d = m - (ec + 1)" using Suc.hyps(2) by simp
  have f: "fair n (\<lambda>i. r (i + 2 * k))" using Suc.prems(1) by (rule fair_shift)
  from Suc.hyps(1) [OF d f g'] lt st show ?case by simp
qed

lemma gnm_loop_sound:
  assumes "gnm_loop nlist m g ec r = Some y"
  shows "nlist = [0..<n] \<longrightarrow> 0 < n \<longrightarrow> simple_on n g \<longrightarrow> number_of_edges g = ec \<longrightarrow> ec \<le> m \<longrightarrow>
           (\<exists>g' r'. y = Inr (g', r') \<and> simple_on n g' \<and> number_of_edges g' = m)"
proof (rule gnm_loop.raw_induct
    [where P = "\<lambda>nlist m g ec r y. nlist = [0..<n] \<longrightarrow> 0 < n \<longrightarrow> simple_on n g \<longrightarrow>
        number_of_edges g = ec \<longrightarrow> ec \<le> m \<longrightarrow>
        (\<exists>g' r'. y = Inr (g', r') \<and> simple_on n g' \<and> number_of_edges g' = m)", OF _ assms])
  fix loop :: "nat list \<Rightarrow> nat \<Rightarrow> nat graph \<Rightarrow> nat \<Rightarrow> rnd \<Rightarrow> (error + (nat graph \<times> rnd)) option"
  fix nlist m g ec r y
  assume IH: "\<And>nlist m g ec r y. loop nlist m g ec r = Some y \<Longrightarrow>
      nlist = [0..<n] \<longrightarrow> 0 < n \<longrightarrow> simple_on n g \<longrightarrow> number_of_edges g = ec \<longrightarrow> ec \<le> m \<longrightarrow>
      (\<exists>g' r'. y = Inr (g', r') \<and> simple_on n g' \<and> number_of_edges g' = m)"
  assume body: "(if ec < m then
        (case choice nlist r of
           Inl e \<Rightarrow> Some (Inl e)
         | Inr (u, r1) \<Rightarrow>
             (case choice nlist r1 of
                Inl e \<Rightarrow> Some (Inl e)
              | Inr (v, r2) \<Rightarrow>
                  if u = v \<or> has_edge g (u, v) then loop nlist m g ec r2
                  else loop nlist m (add_edge g (u, v)) (ec + 1) r2))
      else Some (Inr (g, r))) = Some y"
  show "nlist = [0..<n] \<longrightarrow> 0 < n \<longrightarrow> simple_on n g \<longrightarrow> number_of_edges g = ec \<longrightarrow> ec \<le> m \<longrightarrow>
      (\<exists>g' r'. y = Inr (g', r') \<and> simple_on n g' \<and> number_of_edges g' = m)"
  proof (intro impI)
    assume nl: "nlist = [0..<n]" and n: "0 < n" and so: "simple_on n g"
      and ne: "number_of_edges g = ec" and le: "ec \<le> m"
    show "\<exists>g' r'. y = Inr (g', r') \<and> simple_on n g' \<and> number_of_edges g' = m"
    proof (cases "ec < m")
      case False
      with le have "ec = m" by simp
      with False body so ne show ?thesis by auto
    next
      case True
      define u where "u = r 0 mod n"
      define v where "v = r 1 mod n"
      have lt: "u < n" "v < n" using n by (simp_all add: u_def v_def)
      have c1: "choice [0..<n] r = Inr (u, \<lambda>i. r (Suc i))"
        using n by (simp add: choice_def randbelow_def u_def)
      have c2: "choice [0..<n] (\<lambda>i. r (Suc i)) = Inr (v, \<lambda>i. r (i + 2))"
        using n by (simp add: choice_def randbelow_def v_def)
      show ?thesis
      proof (cases "u = v \<or> has_edge g (u, v)")
        case rej: True
        then have "loop nlist m g ec (\<lambda>i. r (i + 2)) = Some y"
          using body True by (simp add: nl c1 c2)
        from IH [OF this] nl n so ne le show ?thesis by simp
      next
        case acc: False
        then have run: "loop nlist m (add_edge g (u, v)) (ec + 1) (\<lambda>i. r (i + 2)) = Some y"
          using body True by (simp add: nl c1 c2)
        have "simple_on n (add_edge g (u, v))"
          "number_of_edges (add_edge g (u, v)) = ec + 1"
          using simple_on_add_edge [OF so lt] acc ne by simp_all
        with IH [OF run] nl n True show ?thesis by simp
      qed
    qed
  qed
qed

lemma simple_on_range:
  "simple_on n (add_nodes_from empty_graph [0..<n])"
  "number_of_edges (add_nodes_from empty_graph [0..<n]) = 0"
proof -
  let ?g = "add_nodes_from empty_graph [0..<n]"
  have e: "edges_list ?g = []"
    by (simp add: edges_list_add_nodes_from) (simp add: edges_list_def empty_graph_def)
  show "simple_on n ?g"
    by (simp add: simple_on_def wf_add_nodes_from wf_empty_graph nodes_list_range_graph e)
  show "number_of_edges ?g = 0" using e by (simp add: length_edges_list [symmetric])
qed

lemma simple_on_complete: "simple_on n (complete_graph n)"
proof -
  have "fst e \<noteq> snd e" if "e \<in> set (edges_list (complete_graph n))" for e
  proof
    assume eq: "fst e = snd e"
    from that have "uedge e \<in> edges_of (complete_graph n)" by (simp add: edges_of_def)
    then obtain i j where "i < j" "uedge e = uedge (i, j)"
      by (auto simp: complete_graph_props(3))
    with eq show False by (auto simp: uedge_def doubleton_eq_iff)
  qed
  then show ?thesis by (simp add: simple_on_def complete_graph_props(1,2))
qed

lemma gnm_random_graph_sound:
  assumes "m \<le> n * (n - 1) div 2" and "gnm_random_graph n m r = Some y"
  shows "\<exists>g r'. y = Inr (g, r') \<and> simple_on n g \<and> number_of_edges g = m"
proof (cases "n * (n - 1) \<le> 2 * m")
  case True
  with assms(1) have "m = n * (n - 1) div 2" by arith
  moreover have "y = Inr (complete_graph n, r)"
    using gnm_random_graph_dense [OF True, of r] assms(2) by simp
  ultimately show ?thesis
    using simple_on_complete [of n] complete_graph_props(4) [of n]
    by (intro exI [of _ "complete_graph n"] exI [of _ r]) simp
next
  case False
  then have n: "0 < n" "n \<noteq> 1" by (auto intro: Nat.gr0I)
  with False assms(2) have "gnm_loop [0..<n] m (add_nodes_from empty_graph [0..<n]) 0 r = Some y"
    by (simp add: gnm_random_graph_def nodes_list_range_graph)
  from gnm_loop_sound [OF this, of n] n(1) simple_on_range [of n] show ?thesis by simp
qed

lemma gnm_random_graph_returns:
  assumes "m \<le> n * (n - 1) div 2" and "fair n r"
  shows "\<exists>y. gnm_random_graph n m r = Some y"
proof (cases "n * (n - 1) \<le> 2 * m")
  case True
  then show ?thesis by (simp add: gnm_random_graph_dense)
next
  case False
  then have n: "0 < n" "n \<noteq> 1" by (auto intro: Nat.gr0I)
  from gnm_loop_terminates [OF assms(2) simple_on_range(1) n(1) simple_on_range(2) _ assms(1)]
  obtain g' r' where
    "gnm_loop [0..<n] m (add_nodes_from empty_graph [0..<n]) 0 r = Some (Inr (g', r'))"
    by auto
  with False n show ?thesis by (simp add: gnm_random_graph_def nodes_list_range_graph)
qed

lemma fair_round_robin: "0 < n \<Longrightarrow> fair n (round_robin n)"
  unfolding fair_def
proof (intro allI impI)
  fix u v p
  assume n: "0 < n" and u: "u < n" and v: "v < n"
  define q where "q = (p * n + u) * n + v"
  have "1 \<le> n * n" using n by (simp add: Suc_leI)
  then have "p * 1 \<le> p * (n * n)" by (rule mult_le_mono2)
  also have "\<dots> \<le> q" by (simp add: q_def algebra_simps)
  finally have ge: "p \<le> q" by simp
  have a: "q div n = p * n + u" using v by (simp add: q_def)
  have b: "q mod n = v" using v by (simp add: q_def)
  have "round_robin n (2 * q) mod n = u" "round_robin n (2 * q + 1) mod n = v"
    using u v by (simp_all add: round_robin_def a b)
  with ge show "\<exists>q\<ge>p. round_robin n (2 * q) mod n = u \<and> round_robin n (2 * q + 1) mod n = v"
    by blast
qed

section \<open>Sparse requests\<close>

lemma simple_on_props:
  assumes "simple_on n g" and "number_of_edges g = m"
  shows "nodes_of g = {0..<n}" "number_of_nodes g = n" "card (edges_of g) = m"
    "distinct (map uedge (edges_list g))"
    "\<forall>e \<in> set (edges_list g). fst e \<noteq> snd e \<and> fst e < n \<and> snd e < n"
proof -
  have wf: "wf_graph g" and nl: "nodes_list g = [0..<n]"
    and ns: "\<forall>e \<in> set (edges_list g). fst e \<noteq> snd e"
    using assms(1) by (simp_all add: simple_on_def)
  show n: "nodes_of g = {0..<n}" by (simp add: nodes_of_def nl)
  show "number_of_nodes g = n" using nl by (simp add: length_nodes_list [symmetric])
  show "card (edges_of g) = m" using card_edges_of [OF wf] assms(2) by simp
  show "distinct (map uedge (edges_list g))" using wf by (simp add: wf_graph_def)
  show "\<forall>e \<in> set (edges_list g). fst e \<noteq> snd e \<and> fst e < n \<and> snd e < n"
    using ns edge_endpoints_in_nodes [OF wf] n by auto
qed

text \<open>
  C3: when at most \<open>n (n - 1) / 2\<close> edges are asked for, \<open>create_random_topology\<close> never
  raises, and a graph it returns has exactly the nodes \<open>0, ..., n - 1\<close> and exactly the
  number of edges asked for, all distinct as undirected edges, none a self-loop. It
  returns for every fair random source.
\<close>

theorem sparse_request_gives_simple_graph:
  assumes "num_edges \<le> num_nodes * (num_nodes - 1) div 2"
  shows "(\<forall>res. create_random_topology num_nodes num_edges s = Some res \<longrightarrow>
            (\<exists>g r'. res = Inr (length (heap s), s\<lparr>heap := heap s @ [g], rand := r'\<rparr>) \<and>
               nodes_of g = {0..<num_nodes} \<and>
               number_of_nodes g = num_nodes \<and>
               number_of_edges g = num_edges \<and>
               card (edges_of g) = num_edges \<and>
               distinct (map uedge (edges_list g)) \<and>
               (\<forall>e \<in> set (edges_list g).
                  fst e \<noteq> snd e \<and> fst e < num_nodes \<and> snd e < num_nodes))) \<and>
         (fair num_nodes (rand s) \<longrightarrow>
            (\<exists>res. create_random_topology num_nodes num_edges s = Some res))"
proof (intro conjI allI impI)
  fix res
  assume run: "create_random_topology num_nodes num_edges s = Some res"
  then obtain y where y: "gnm_random_graph num_nodes num_edges (rand s) = Some y"
    by (cases "gnm_random_graph num_nodes num_edges (rand s)")
       (simp_all add: create_random_topology_def)
  from gnm_random_graph_sound [OF assms y] obtain g r' where
    g: "y = Inr (g, r')" "simple_on num_nodes g" "number_of_edges g = num_edges" by blast
  have "res = Inr (length (heap s), s\<lparr>heap := heap s @ [g], rand := r'\<rparr>)"
    using run y g(1) by (auto simp: create_random_topology_def new_graph_def)
  with simple_on_props [OF g(2,3)]
  show "\<exists>g r'. res = Inr (length (heap s), s\<lparr>heap := heap s @ [g], rand := r'\<rparr>) \<and>
               nodes_of g = {0..<num_nodes} \<and>
               number_of_nodes g = num_nodes \<and>
               number_of_edges g = num_edges \<and>
               card (edges_of g) = num_edges \<and>
               distinct (map uedge (edges_list g)) \<and>
               (\<forall>e \<in> set (edges_list g).
                  fst e \<noteq> snd e \<and> fst e < num_nodes \<and> snd e < num_nodes)"
    using g(3) by (intro exI [of _ g] exI [of _ r']) simp
next
  assume "fair num_nodes (rand s)"
  from gnm_random_graph_returns [OF assms this] obtain y where
    y: "gnm_random_graph num_nodes num_edges (rand s) = Some y" by blast
  from gnm_random_graph_sound [OF assms y] obtain g r' where "y = Inr (g, r')" by blast
  with y show "\<exists>res. create_random_topology num_nodes num_edges s = Some res"
    by (simp add: create_random_topology_def)
qed

theorem sparse_request_gives_simple_graph_witness:
  "(2::nat) \<le> 3 * (3 - 1) div 2 \<and>
   fair 3 (rand \<lparr>heap = [] :: nat graph list, rand = round_robin 3\<rparr>) \<and>
   (\<exists>g r'. create_random_topology 3 2 \<lparr>heap = [], rand = round_robin 3\<rparr> =
              Some (Inr (0, \<lparr>heap = [g], rand = r'\<rparr>)) \<and>
            nodes_of g = {0..<3} \<and>
            number_of_nodes g = 3 \<and>
            number_of_edges g = 2 \<and>
            card (edges_of g) = 2 \<and>
            distinct (map uedge (edges_list g)) \<and>
            (\<forall>e \<in> set (edges_list g). fst e \<noteq> snd e \<and> fst e < 3 \<and> snd e < 3))"
proof -
  have f: "fair 3 (round_robin 3)" by (rule fair_round_robin) simp
  have le: "(2::nat) \<le> 3 * (3 - 1) div 2" by simp
  from sparse_request_gives_simple_graph [OF le, of "\<lparr>heap = [], rand = round_robin 3\<rparr>"] f
  show ?thesis by (simp add: f) blast
qed

end
